theory Spec2Isabelle
  imports Main "HOL-Library.Word"
begin

section \<open>JavaScript strings\<close>

text \<open>
  A JavaScript string is a sequence of UTF-16 code units, and the regular expressions of
  \<^verbatim>\<open>textFormatter.tsx\<close> (none has the \<^verbatim>\<open>u\<close> flag) work on code units. The bullet
  \<^verbatim>\<open>U+2022\<close> of the bullet-list pattern and the Unicode spaces of \<^verbatim>\<open>\s\<close> and
  \<^verbatim>\<open>trim()\<close> are single code units, so a string is modelled as a list of 16-bit words.
\<close>

type_synonym cu = "16 word"
type_synonym ustring = "cu list"

text \<open>An ASCII literal as a JavaScript string.\<close>

definition ustr :: "string \<Rightarrow> ustring" where
  "ustr s = map of_char s"

text \<open>
  ECMAScript \<^verbatim>\<open>LineTerminator\<close>: LF, CR, U+2028, U+2029.
\<close>

definition is_line_terminator :: "cu \<Rightarrow> bool" where
  "is_line_terminator c \<longleftrightarrow> c = 0x0A \<or> c = 0x0D \<or> c = 0x2028 \<or> c = 0x2029"

text \<open>
  ECMAScript \<^verbatim>\<open>WhiteSpace\<close> or \<^verbatim>\<open>LineTerminator\<close>: what \<^verbatim>\<open>\s\<close> matches and what
  \<^verbatim>\<open>String.prototype.trim\<close> strips.
\<close>

definition is_ws :: "cu \<Rightarrow> bool" where
  "is_ws c \<longleftrightarrow>
     c = 0x09 \<or> c = 0x0B \<or> c = 0x0C \<or> c = 0x20 \<or> c = 0xA0 \<or> c = 0x1680 \<or>
     (0x2000 \<le> c \<and> c \<le> 0x200A) \<or> c = 0x202F \<or> c = 0x205F \<or> c = 0x3000 \<or>
     c = 0xFEFF \<or> is_line_terminator c"

definition is_digit :: "cu \<Rightarrow> bool" where
  "is_digit c \<longleftrightarrow> 0x30 \<le> c \<and> c \<le> 0x39"

text \<open>\<^verbatim>\<open>s.slice(a, b)\<close> and \<^verbatim>\<open>s.slice(a)\<close> for non-negative indices.\<close>

definition slice :: "ustring \<Rightarrow> nat \<Rightarrow> nat \<Rightarrow> ustring" where
  "slice s a b = take (b - a) (drop a s)"

definition slice_from :: "ustring \<Rightarrow> nat \<Rightarrow> ustring" where
  "slice_from s a = drop a s"

definition trim :: "ustring \<Rightarrow> ustring" where
  "trim s = rev (dropWhile is_ws (rev (dropWhile is_ws s)))"

definition startsWith :: "ustring \<Rightarrow> ustring \<Rightarrow> bool" where
  "startsWith s p \<longleftrightarrow> take (length p) s = p"

text \<open>
  \<^verbatim>\<open>text.split('\n')\<close>: the pieces between line feeds; the empty string gives one empty
  line. \<open>split_acc\<close> carries the line read so far.
\<close>

fun split_acc :: "ustring \<Rightarrow> ustring \<Rightarrow> ustring list" where
  "split_acc cur [] = [cur]"
| "split_acc cur (c # cs) =
     (if c = 0x0A then cur # split_acc [] cs else split_acc (cur @ [c]) cs)"

definition split_nl :: "ustring \<Rightarrow> ustring list" where
  "split_nl s = split_acc [] s"

text \<open>\<^verbatim>\<open>lines.join('\n')\<close>.\<close>

fun join_nl :: "ustring list \<Rightarrow> ustring" where
  "join_nl [] = []"
| "join_nl [l] = l"
| "join_nl (l # ls) = l @ 0x0A # join_nl ls"

section \<open>Regular expressions\<close>

text \<open>
  Every regular expression of the file is a sequence of anchors and of quantified
  single-character classes, some of them in a capture group. A class is one of the forms
  the patterns use.
\<close>

datatype cset =
    Lit cu             \<comment> \<open>an escaped or plain literal: \<^verbatim>\<open>\[\<close>, \<^verbatim>\<open>\*\<close>, \<^verbatim>\<open>#\<close>\<close>
  | Dot                \<comment> \<open>\<^verbatim>\<open>.\<close> without the \<^verbatim>\<open>s\<close> flag: anything but a line terminator\<close>
  | Space              \<comment> \<open>\<^verbatim>\<open>\s\<close>\<close>
  | Digit              \<comment> \<open>\<^verbatim>\<open>\d\<close>\<close>
  | OneOf "cu list"    \<comment> \<open>\<^verbatim>\<open>[...]\<close>\<close>
  | NoneOf "cu list"   \<comment> \<open>\<^verbatim>\<open>[^...]\<close>\<close>

fun cset_mem :: "cset \<Rightarrow> cu \<Rightarrow> bool" where
  "cset_mem (Lit a) c \<longleftrightarrow> c = a"
| "cset_mem Dot c \<longleftrightarrow> \<not> is_line_terminator c"
| "cset_mem Space c \<longleftrightarrow> is_ws c"
| "cset_mem Digit c \<longleftrightarrow> is_digit c"
| "cset_mem (OneOf as) c \<longleftrightarrow> c \<in> set as"
| "cset_mem (NoneOf as) c \<longleftrightarrow> c \<notin> set as"

text \<open>
  \<open>Rep c lo hi greedy\<close> is the class \<open>c\<close> repeated between \<open>lo\<close> and \<open>hi\<close> times
  (\<open>None\<close>: unbounded), greedily or lazily. \<open>Bol\<close> and \<open>Eol\<close> are \<^verbatim>\<open>^\<close> and \<^verbatim>\<open>$\<close>
  without the \<^verbatim>\<open>m\<close> flag: the start and the end of the whole input.
\<close>

datatype atom = Bol | Eol | Rep cset nat "nat option" bool

abbreviation One :: "cset \<Rightarrow> atom" where "One c \<equiv> Rep c 1 (Some 1) True"
abbreviation Plus :: "cset \<Rightarrow> atom" where "Plus c \<equiv> Rep c 1 None True"
abbreviation Star :: "cset \<Rightarrow> atom" where "Star c \<equiv> Rep c 0 None True"
abbreviation StarLazy :: "cset \<Rightarrow> atom" where "StarLazy c \<equiv> Rep c 0 None False"
abbreviation Between :: "nat \<Rightarrow> nat \<Rightarrow> cset \<Rightarrow> atom" where
  "Between lo hi c \<equiv> Rep c lo (Some hi) True"

text \<open>\<open>Group a\<close> is the atom in capturing parentheses, \<open>Plain a\<close> the atom alone.\<close>

datatype item = Plain atom | Group atom

type_synonym regex = "item list"

fun atom_of :: "item \<Rightarrow> atom" where
  "atom_of (Plain a) = a"
| "atom_of (Group a) = a"

fun is_group :: "item \<Rightarrow> bool" where
  "is_group (Plain a) = False"
| "is_group (Group a) = True"

text \<open>
  The number of characters at the head of \<open>rest\<close> that the class accepts.
\<close>

definition run :: "cset \<Rightarrow> ustring \<Rightarrow> nat" where
  "run c rest = length (takeWhile (cset_mem c) rest)"

text \<open>
  The repetition counts a backtracking matcher tries for a quantified class, in the
  order it tries them: a greedy quantifier from the longest down, a lazy one from the
  shortest up.
\<close>

definition counts :: "nat \<Rightarrow> nat option \<Rightarrow> bool \<Rightarrow> nat \<Rightarrow> nat list" where
  "counts lo hi greedy n =
     (let top = (case hi of None \<Rightarrow> n | Some h \<Rightarrow> min h n);
          ks = [lo..<Suc top]
      in if greedy then rev ks else ks)"

text \<open>
  The backtracking matcher. \<open>matchHere re pos rest caps\<close> matches \<open>re\<close> at offset \<open>pos\<close>
  of the input, \<open>rest\<close> being the input from \<open>pos\<close> on and \<open>caps\<close> the groups captured
  so far; it returns the end offset and the captures of the first match in backtracking
  order. \<open>tryCounts\<close> is the backtracking loop of one quantified class: the first count
  for which the rest of the pattern matches wins. A group captures what its atom consumed
  (nothing, for an anchor).
\<close>

function matchHere :: "regex \<Rightarrow> nat \<Rightarrow> ustring \<Rightarrow> ustring list \<Rightarrow> (nat \<times> ustring list) option"
  and tryCounts :: "regex \<Rightarrow> bool \<Rightarrow> nat list \<Rightarrow> nat \<Rightarrow> ustring \<Rightarrow> ustring list
        \<Rightarrow> (nat \<times> ustring list) option" where
  "matchHere [] pos rest caps = Some (pos, caps)"
| "matchHere (it # re) pos rest caps =
     (case atom_of it of
        Bol \<Rightarrow>
          if pos = 0 then matchHere re pos rest (if is_group it then caps @ [Nil] else caps)
          else None
      | Eol \<Rightarrow>
          if rest = [] then matchHere re pos rest (if is_group it then caps @ [Nil] else caps)
          else None
      | Rep c lo hi greedy \<Rightarrow>
          tryCounts re (is_group it) (counts lo hi greedy (run c rest)) pos rest caps)"
| "tryCounts re grp [] pos rest caps = None"
| "tryCounts re grp (k # ks) pos rest caps =
     (case matchHere re (pos + k) (drop k rest) (if grp then caps @ [take k rest] else caps) of
        Some r \<Rightarrow> Some r
      | None \<Rightarrow> tryCounts re grp ks pos rest caps)"
  by pat_completeness auto
termination
  by (relation "measures
        [\<lambda>x. case x of Inl (re, pos, rest, caps) \<Rightarrow> length re
                      | Inr (re, grp, ks, pos, rest, caps) \<Rightarrow> length re,
         \<lambda>x. case x of Inl (re, pos, rest, caps) \<Rightarrow> 0
                      | Inr (re, grp, ks, pos, rest, caps) \<Rightarrow> Suc (length ks)]") auto

text \<open>
  A match object: \<^verbatim>\<open>match.index\<close>, \<^verbatim>\<open>match[0]\<close> and the captured groups
  \<^verbatim>\<open>match[1]\<close>, \<^verbatim>\<open>match[2]\<close>, ...
\<close>

record regexp_match =
  index :: nat
  matched :: ustring
  captures :: "ustring list"

text \<open>
  \<^verbatim>\<open>match[n]\<close> for \<open>n \<ge> 1\<close>. A group the pattern does not have is \<^verbatim>\<open>undefined\<close> in
  JavaScript, which React renders as nothing; every pattern of the file has the groups
  its renderer reads.
\<close>

definition capture :: "regexp_match \<Rightarrow> nat \<Rightarrow> ustring" where
  "capture mt n = (if 0 < n \<and> n \<le> length (captures mt) then captures mt ! (n - 1) else [])"

text \<open>
  The search of \<^verbatim>\<open>RegExp.prototype.exec\<close>: the offsets are tried from left to right and
  the first one where the pattern matches gives the result.
\<close>

fun first_match :: "regex \<Rightarrow> ustring \<Rightarrow> nat list \<Rightarrow> regexp_match option" where
  "first_match re text [] = None"
| "first_match re text (i # is) =
     (case matchHere re i (drop i text) [] of
        Some (e, caps) \<Rightarrow> Some \<lparr>index = i, matched = slice text i e, captures = caps\<rparr>
      | None \<Rightarrow> first_match re text is)"

text \<open>
  \<^verbatim>\<open>regex.exec(text)\<close> of a global regex whose \<^verbatim>\<open>lastIndex\<close> is \<open>lastIndex\<close>: the search
  starts there, and fails when \<open>lastIndex\<close> is beyond the end of the text. On success the
  caller's next \<^verbatim>\<open>lastIndex\<close> is the end of the match.
\<close>

definition exec :: "regex \<Rightarrow> ustring \<Rightarrow> nat \<Rightarrow> regexp_match option" where
  "exec re text lastIndex = first_match re text [lastIndex..<Suc (length text)]"

text \<open>\<^verbatim>\<open>line.match(re)\<close> of a regex without the \<^verbatim>\<open>g\<close> flag: the first match from offset 0.\<close>

definition match_str :: "ustring \<Rightarrow> regex \<Rightarrow> regexp_match option" where
  "match_str line re = exec re line 0"

section \<open>The inline resolver: \<^verbatim>\<open>formatInlineText\<close>\<close>

text \<open>
  The rendered inline nodes: \<^verbatim>\<open><span>\<close>, \<^verbatim>\<open><a href=url>label</a>\<close>, \<^verbatim>\<open><strong>\<close>,
  \<^verbatim>\<open><em>\<close> and \<^verbatim>\<open><code>\<close>. The CSS classes are constants of each tag. The React key
  of a part is \<^verbatim>\<open>text-i\<close> or \<^verbatim>\<open>format-i\<close> with \<open>i\<close> its position in the result
  (\<^verbatim>\<open>partIndex\<close> is incremented at every push), so the position and the tag determine it
  and the node does not store it.
\<close>

datatype inline =
    PlainText ustring
  | Link ustring ustring    \<comment> \<open>label, url\<close>
  | Bold ustring
  | Italic ustring
  | Code ustring

text \<open>The five entries of \<^verbatim>\<open>patterns\<close>, in the order of the array.\<close>

datatype family = LinkP | BoldTriple | BoldDouble | ItalicP | CodeP

abbreviation (input) chr :: "char \<Rightarrow> cu" where "chr c \<equiv> of_char c"

fun regex_of :: "family \<Rightarrow> regex" where
  "regex_of LinkP =
     [Plain (One (Lit (chr CHR ''[''))), Group (Plus (NoneOf [chr CHR '']''])),
      Plain (One (Lit (chr CHR '']''))), Plain (One (Lit (chr CHR ''(''))),
      Group (Plus (NoneOf [chr CHR '')''])), Plain (One (Lit (chr CHR '')'')))]"
| "regex_of BoldTriple =
     [Plain (One (Lit (chr CHR ''*''))), Plain (One (Lit (chr CHR ''*''))),
      Plain (One (Lit (chr CHR ''*''))), Group (StarLazy Dot),
      Plain (One (Lit (chr CHR ''*''))), Plain (One (Lit (chr CHR ''*''))),
      Plain (One (Lit (chr CHR ''*'')))]"
| "regex_of BoldDouble =
     [Plain (One (Lit (chr CHR ''*''))), Plain (One (Lit (chr CHR ''*''))),
      Group (StarLazy Dot),
      Plain (One (Lit (chr CHR ''*''))), Plain (One (Lit (chr CHR ''*'')))]"
| "regex_of ItalicP =
     [Plain (One (Lit (chr CHR ''*''))), Group (StarLazy Dot),
      Plain (One (Lit (chr CHR ''*'')))]"
| "regex_of CodeP =
     [Plain (One (Lit (chr CHR 0x60))), Group (Plus (NoneOf [chr CHR 0x60])),
      Plain (One (Lit (chr CHR 0x60)))]"

definition patterns :: "family list" where
  "patterns = [LinkP, BoldTriple, BoldDouble, ItalicP, CodeP]"

fun render :: "family \<Rightarrow> regexp_match \<Rightarrow> inline" where
  "render LinkP mt = Link (capture mt 1) (capture mt 2)"
| "render BoldTriple mt = Bold (capture mt 1)"
| "render BoldDouble mt = Bold (capture mt 1)"
| "render ItalicP mt = Italic (capture mt 1)"
| "render CodeP mt = Code (capture mt 1)"

text \<open>An entry of \<^verbatim>\<open>allMatches\<close>; \<open>mstart\<close> and \<open>mend\<close> are its \<^verbatim>\<open>start\<close> and \<^verbatim>\<open>end\<close>.\<close>

record found =
  fmatch :: regexp_match
  pattern :: family
  mstart :: nat
  mend :: nat

text \<open>
  The loop \<^verbatim>\<open>while ((match = regex.exec(text)) !== null) allMatches.push(...)\<close> of one
  pattern. \<^verbatim>\<open>exec\<close> leaves \<^verbatim>\<open>lastIndex\<close> at the end of the match, so a pattern that
  matched the empty string would be found at the same offset for ever: the loop is a
  partial function, and \<open>None\<close> is the run that does not return.
\<close>

partial_function (option) execLoop ::
  "family \<Rightarrow> ustring \<Rightarrow> nat \<Rightarrow> found list \<Rightarrow> found list option" where
  "execLoop p text lastIndex allMatches =
     (case exec (regex_of p) text lastIndex of
        None \<Rightarrow> Some allMatches
      | Some mt \<Rightarrow>
          execLoop p text (index mt + length (matched mt))
            (allMatches @ [\<lparr>fmatch = mt, pattern = p, mstart = index mt,
                             mend = index mt + length (matched mt)\<rparr>]))"

text \<open>\<^verbatim>\<open>patterns.forEach(...)\<close>: each pattern scans the text from offset 0.\<close>

fun collect :: "family list \<Rightarrow> ustring \<Rightarrow> found list \<Rightarrow> found list option" where
  "collect [] text allMatches = Some allMatches"
| "collect (p # ps) text allMatches =
     (case execLoop p text 0 allMatches of
        None \<Rightarrow> None
      | Some allMatches' \<Rightarrow> collect ps text allMatches')"

definition allMatches :: "ustring \<Rightarrow> found list option" where
  "allMatches text = collect patterns text []"

text \<open>
  \<^verbatim>\<open>allMatches.sort((a, b) => a.start - b.start)\<close>. \<^verbatim>\<open>Array.prototype.sort\<close> is stable
  (ECMAScript 2019), as the insertion sort \<open>sort_key\<close> is.
\<close>

definition sortMatches :: "found list \<Rightarrow> found list" where
  "sortMatches ms = sort_key mstart ms"

text \<open>The loop that removes overlapping matches, keeping the first one.\<close>

fun removeOverlaps :: "found list \<Rightarrow> nat \<Rightarrow> found list" where
  "removeOverlaps [] lastEnd = []"
| "removeOverlaps (f # fs) lastEnd =
     (if mstart f \<ge> lastEnd then f # removeOverlaps fs (mend f)
      else removeOverlaps fs lastEnd)"

definition validMatches :: "ustring \<Rightarrow> found list option" where
  "validMatches text = map_option (\<lambda>ms. removeOverlaps (sortMatches ms) 0) (allMatches text)"

text \<open>
  A pushed part. The source pushes only the node; \<open>src_from\<close> and \<open>src_to\<close> record beside it the
  range of the text the node was made from (the arguments of the \<^verbatim>\<open>slice\<close> for a plain
  span, \<^verbatim>\<open>start\<close> and \<^verbatim>\<open>end\<close> for a match), which the node itself no longer shows.
\<close>

record part =
  src_from :: nat
  src_to :: nat
  node :: inline

text \<open>\<^verbatim>\<open>validMatches.forEach(...)\<close> with the state \<^verbatim>\<open>parts\<close>, \<^verbatim>\<open>currentIndex\<close>.\<close>

fun buildParts :: "ustring \<Rightarrow> found list \<Rightarrow> part list \<Rightarrow> nat \<Rightarrow> part list \<times> nat" where
  "buildParts text [] parts currentIndex = (parts, currentIndex)"
| "buildParts text (f # fs) parts currentIndex =
     (let beforeText = slice text currentIndex (mstart f);
          parts1 = (if mstart f > currentIndex \<and> beforeText \<noteq> []
                    then parts @ [\<lparr>src_from = currentIndex, src_to = mstart f, node = PlainText beforeText\<rparr>]
                    else parts);
          parts2 = parts1 @ [\<lparr>src_from = mstart f, src_to = mend f, node = render (pattern f) (fmatch f)\<rparr>]
      in buildParts text fs parts2 (mend f))"

text \<open>The remaining text, and the plain span pushed when nothing else was.\<close>

definition finishParts :: "ustring \<Rightarrow> part list \<times> nat \<Rightarrow> part list" where
  "finishParts text st =
     (let (parts, currentIndex) = st;
          remainingText = slice_from text currentIndex;
          parts1 = (if currentIndex < length text \<and> remainingText \<noteq> []
                    then parts @ [\<lparr>src_from = currentIndex, src_to = length text, node = PlainText remainingText\<rparr>]
                    else parts)
      in if length parts1 = 0 then [\<lparr>src_from = 0, src_to = length text, node = PlainText text\<rparr>]
         else parts1)"

definition inlineParts :: "ustring \<Rightarrow> part list option" where
  "inlineParts text =
     map_option (\<lambda>vs. finishParts text (buildParts text vs [] 0)) (validMatches text)"

definition formatInlineText :: "ustring \<Rightarrow> inline list option" where
  "formatInlineText text = map_option (map node) (inlineParts text)"

section \<open>The block scanner: \<^verbatim>\<open>formatText\<close>\<close>

text \<open>
  The rendered block nodes. The first field is the \<^verbatim>\<open>lineIndex\<close> of the React key;
  a header has its level (the tag \<^verbatim>\<open>h1\<close> to \<^verbatim>\<open>h6\<close>), a numbered item the digits it shows.
\<close>

datatype block =
    CodeBlock nat ustring
  | Blank nat
  | Header nat nat "inline list"
  | Blockquote nat "inline list"
  | OrderedItem nat ustring "inline list"
  | UnorderedItem nat "inline list"
  | Paragraph nat "inline list"

definition fence :: ustring where
  "fence = [chr CHR 0x60, chr CHR 0x60, chr CHR 0x60]"

text \<open>\<^verbatim>\<open>/^(#{1,6})\s+(.+)$/\<close>, \<^verbatim>\<open>/^\s*(\d+)\. (.+)$/\<close> and \<^verbatim>\<open>/^\s*[-*\<bullet>]\s+(.+)$/\<close>.\<close>

definition headerRegex :: regex where
  "headerRegex =
     [Plain Bol, Group (Between 1 6 (Lit (chr CHR ''#''))), Plain (Plus Space),
      Group (Plus Dot), Plain Eol]"

definition numberedListRegex :: regex where
  "numberedListRegex =
     [Plain Bol, Plain (Star Space), Group (Plus Digit), Plain (One (Lit (chr CHR ''.''))),
      Plain (One (Lit (chr CHR '' ''))), Group (Plus Dot), Plain Eol]"

definition bulletListRegex :: regex where
  "bulletListRegex =
     [Plain Bol, Plain (Star Space),
      Plain (One (OneOf [chr CHR ''-'', chr CHR ''*'', 0x2022])), Plain (Plus Space),
      Group (Plus Dot), Plain Eol]"

record scan_state =
  formattedLines :: "block list"
  inCodeBlock :: bool
  codeBlockContent :: "ustring list"

text \<open>
  The body of the \<^verbatim>\<open>for\<close> loop for the line \<open>line\<close> at \<open>lineIndex\<close>. It returns
  \<open>None\<close> only if a call of \<open>formatInlineText\<close> does not return.
\<close>

definition push :: "scan_state \<Rightarrow> block \<Rightarrow> scan_state" where
  "push st b = st\<lparr>formattedLines := formattedLines st @ [b]\<rparr>"

definition scanLine :: "scan_state \<Rightarrow> nat \<Rightarrow> ustring \<Rightarrow> scan_state option" where
  "scanLine st lineIndex line =
     (if startsWith (trim line) fence then
        (if inCodeBlock st then
           Some ((push st (CodeBlock lineIndex (join_nl (codeBlockContent st))))
                   \<lparr>codeBlockContent := [], inCodeBlock := False\<rparr>)
         else Some (st\<lparr>inCodeBlock := True\<rparr>))
      else if inCodeBlock st then
        Some (st\<lparr>codeBlockContent := codeBlockContent st @ [line]\<rparr>)
      else if trim line = [] then Some (push st (Blank lineIndex))
      else case match_str line headerRegex of
        Some headerMatch \<Rightarrow>
          map_option (\<lambda>sp. push st (Header lineIndex (length (capture headerMatch 1)) sp))
            (formatInlineText (capture headerMatch 2))
      | None \<Rightarrow>
          if startsWith (trim line) (ustr ''> '') then
            map_option (\<lambda>sp. push st (Blockquote lineIndex sp))
              (formatInlineText (slice_from (trim line) 2))
          else case match_str line numberedListRegex of
            Some numberedListMatch \<Rightarrow>
              map_option (\<lambda>sp. push st (OrderedItem lineIndex (capture numberedListMatch 1) sp))
                (formatInlineText (capture numberedListMatch 2))
          | None \<Rightarrow>
              (case match_str line bulletListRegex of
                 Some bulletListMatch \<Rightarrow>
                   map_option (\<lambda>sp. push st (UnorderedItem lineIndex sp))
                     (formatInlineText (capture bulletListMatch 1))
               | None \<Rightarrow>
                   map_option (\<lambda>sp. push st (Paragraph lineIndex sp))
                     (formatInlineText line)))"

text \<open>The \<^verbatim>\<open>for\<close> loop over the lines, from \<open>lineIndex\<close> on.\<close>

fun scanLines :: "nat \<Rightarrow> ustring list \<Rightarrow> scan_state \<Rightarrow> scan_state option" where
  "scanLines lineIndex [] st = Some st"
| "scanLines lineIndex (line # rest) st =
     (case scanLine st lineIndex line of
        None \<Rightarrow> None
      | Some st' \<Rightarrow> scanLines (Suc lineIndex) rest st')"

definition initial :: scan_state where
  "initial = \<lparr>formattedLines = [], inCodeBlock = False, codeBlockContent = []\<rparr>"

text \<open>
  The argument of \<^verbatim>\<open>formatText\<close>: declared a string, but the guard \<^verbatim>\<open>if (!text)\<close> also
  answers a caller that passes \<^verbatim>\<open>null\<close> or \<^verbatim>\<open>undefined\<close>.
\<close>

datatype js_arg = JNull | JUndefined | JString ustring

fun falsy :: "js_arg \<Rightarrow> bool" where
  "falsy JNull = True"
| "falsy JUndefined = True"
| "falsy (JString s) = (s = [])"

fun formatText :: "js_arg \<Rightarrow> block list option" where
  "formatText JNull = Some []"
| "formatText JUndefined = Some []"
| "formatText (JString text) =
     (if falsy (JString text) then Some []
      else map_option formattedLines (scanLines 0 (split_nl text) initial))"

declare execLoop.simps [code]

section \<open>Vocabulary of the properties\<close>

text \<open>The delimiter each inline pattern begins with.\<close>

fun lead :: "family \<Rightarrow> cu" where
  "lead LinkP = chr CHR ''[''"
| "lead BoldTriple = chr CHR ''*''"
| "lead BoldDouble = chr CHR ''*''"
| "lead ItalicP = chr CHR ''*''"
| "lead CodeP = chr CHR 0x60"

fun asterisk :: "family \<Rightarrow> bool" where
  "asterisk BoldTriple = True"
| "asterisk BoldDouble = True"
| "asterisk ItalicP = True"
| "asterisk LinkP = False"
| "asterisk CodeP = False"

text \<open>
  What holds of an entry that the pattern \<open>p\<close> pushed when scanning \<open>text\<close> from
  \<open>i\<close> on: a non-empty range inside the text that begins with the pattern's delimiter.
\<close>

definition entry_ok :: "family \<Rightarrow> ustring \<Rightarrow> nat \<Rightarrow> found \<Rightarrow> bool" where
  "entry_ok p text i f \<longleftrightarrow> pattern f = p \<and> i \<le> mstart f \<and> mstart f < mend f \<and>
     mend f \<le> length text \<and> text ! mstart f = lead p"

text \<open>
  \<open>chain a rs b\<close>: the ranges \<open>rs\<close>, in their order, tile the interval from \<open>a\<close> to
  \<open>b\<close>: the first begins at \<open>a\<close>, each next one begins where the one before ends, the
  last ends at \<open>b\<close>, and none runs backwards.
\<close>

fun chain :: "nat \<Rightarrow> (nat \<times> nat) list \<Rightarrow> nat \<Rightarrow> bool" where
  "chain a [] b \<longleftrightarrow> a = b"
| "chain a ((s, e) # rs) b \<longleftrightarrow> s = a \<and> s \<le> e \<and> chain e rs b"

definition ranges :: "part list \<Rightarrow> (nat \<times> nat) list" where
  "ranges ps = map (\<lambda>p. (src_from p, src_to p)) ps"

text \<open>The matches begin at or after \<open>e\<close> and each begins at or after the end of the one before.\<close>

fun separated :: "nat \<Rightarrow> found list \<Rightarrow> bool" where
  "separated e [] \<longleftrightarrow> True"
| "separated e (f # fs) \<longleftrightarrow> e \<le> mstart f \<and> separated (mend f) fs"

text \<open>A plain span shows exactly the characters of its range.\<close>

definition plain_ok :: "ustring \<Rightarrow> part \<Rightarrow> bool" where
  "plain_ok text p \<longleftrightarrow>
     (case node p of PlainText t \<Rightarrow> t = slice text (src_from p) (src_to p) | _ \<Rightarrow> True)"

text \<open>The pattern has no \<^verbatim>\<open>^\<close>.\<close>

fun no_bol :: "regex \<Rightarrow> bool" where
  "no_bol [] = True"
| "no_bol (it # re) = (atom_of it \<noteq> Bol \<and> no_bol re)"

section \<open>The matcher stays inside the text\<close>

lemma counts_set: "k \<in> set (counts lo hi g n) \<Longrightarrow> lo \<le> k \<and> k \<le> n"
  by (auto simp: counts_def Let_def split: option.splits if_splits)

lemma run_le_length: "run c rest \<le> length rest"
  by (simp add: run_def length_takeWhile_le)

lemma tryCounts_Some:
  "tryCounts re grp ks pos rest caps = Some r \<Longrightarrow>
   \<exists>k\<in>set ks. matchHere re (pos + k) (drop k rest) (if grp then caps @ [take k rest] else caps) = Some r"
  by (induction ks) (auto split: option.splits)

lemma matchHere_bounds:
  "matchHere re pos rest caps = Some (e, caps') \<Longrightarrow> pos \<le> e \<and> e \<le> pos + length rest"
proof (induction re arbitrary: pos rest caps)
  case Nil
  then show ?case by simp
next
  case (Cons it re)
  show ?case
  proof (cases "atom_of it")
    case Bol
    with Cons.prems
    have "matchHere re pos rest (if is_group it then caps @ [Nil] else caps) = Some (e, caps')"
      by (simp split: if_splits)
    then show ?thesis by (rule Cons.IH)
  next
    case Eol
    with Cons.prems
    have "matchHere re pos rest (if is_group it then caps @ [Nil] else caps) = Some (e, caps')"
      by (simp split: if_splits)
    then show ?thesis by (rule Cons.IH)
  next
    case (Rep c l h g)
    with Cons.prems obtain k where k: "k \<in> set (counts l h g (run c rest))"
      and m: "matchHere re (pos + k) (drop k rest) (if is_group it then caps @ [take k rest] else caps) = Some (e, caps')"
      by (auto dest!: tryCounts_Some)
    from k have "k \<le> length rest"
      using counts_set run_le_length le_trans by blast
    with Cons.IH[OF m] show ?thesis by simp
  qed
qed

lemma matchHere_lead:
  assumes "matchHere (it # re) pos rest caps = Some (e, caps')"
    and "atom_of it = Rep c lo hi g" and "0 < lo"
  shows "pos < e \<and> rest \<noteq> [] \<and> cset_mem c (hd rest)"
proof -
  from assms obtain k where k: "k \<in> set (counts lo hi g (run c rest))"
    and m: "matchHere re (pos + k) (drop k rest) (if is_group it then caps @ [take k rest] else caps) = Some (e, caps')"
    by (auto dest!: tryCounts_Some)
  from k assms(3) have "0 < run c rest" using counts_set by fastforce
  then have "rest \<noteq> [] \<and> cset_mem c (hd rest)"
    by (cases rest) (auto simp: run_def split: if_splits)
  moreover from k assms(3) matchHere_bounds[OF m] have "pos < e"
    using counts_set by fastforce
  ultimately show ?thesis by simp
qed

lemma first_match_Some:
  "first_match re text is = Some mt \<Longrightarrow>
   index mt \<in> set is \<and>
   (\<exists>e. matchHere re (index mt) (drop (index mt) text) [] = Some (e, captures mt) \<and>
        matched mt = slice text (index mt) e)"
  by (induction "is") (auto split: option.splits)

lemma exec_Some:
  assumes "exec re text i = Some mt"
  shows "i \<le> index mt \<and> index mt + length (matched mt) \<le> length text \<and>
    matchHere re (index mt) (drop (index mt) text) [] = Some (index mt + length (matched mt), captures mt)"
proof -
  from assms obtain e where i: "index mt \<in> set [i..<Suc (length text)]"
    and m: "matchHere re (index mt) (drop (index mt) text) [] = Some (e, captures mt)"
    and s: "matched mt = slice text (index mt) e"
    unfolding exec_def by (auto dest!: first_match_Some)
  from matchHere_bounds[OF m] i have b: "index mt \<le> e" "e \<le> length text" by auto
  with s have "length (matched mt) = e - index mt" by (simp add: slice_def)
  with b i m show ?thesis by auto
qed

section \<open>The collection loop returns\<close>

lemma regex_of_lead: "\<exists>re. regex_of p = Plain (One (Lit (lead p))) # re"
  by (cases p) simp_all

lemma exec_pattern:
  assumes "exec (regex_of p) text i = Some mt"
  shows "i \<le> index mt \<and> 0 < length (matched mt) \<and>
         index mt + length (matched mt) \<le> length text \<and> text ! index mt = lead p"
proof -
  obtain re where re: "regex_of p = Plain (One (Lit (lead p))) # re"
    using regex_of_lead by blast
  from exec_Some[OF assms] have i: "i \<le> index mt" "index mt + length (matched mt) \<le> length text"
    and m: "matchHere (regex_of p) (index mt) (drop (index mt) text) [] = Some (index mt + length (matched mt), captures mt)"
    by auto
  from matchHere_lead[OF m[unfolded re], of "Lit (lead p)" 1 "Some 1" True]
  have l: "0 < length (matched mt)" "drop (index mt) text \<noteq> []" "hd (drop (index mt) text) = lead p"
    by auto
  then have "text ! index mt = lead p" by (simp add: hd_drop_conv_nth)
  with i l show ?thesis by simp
qed

lemma execLoop_total:
  "\<exists>xs. execLoop p text i acc = Some (acc @ xs) \<and> (\<forall>f\<in>set xs. entry_ok p text i f) \<and>
        sorted_wrt (<) (map mstart xs)"
proof (induction "Suc (length text) - i" arbitrary: i acc rule: less_induct)
  case less
  show ?case
  proof (cases "exec (regex_of p) text i")
    case None
    then have "execLoop p text i acc = Some (acc @ [])"
      by (subst execLoop.simps) simp
    then show ?thesis by (metis empty_iff list.set(1) list.simps(8) sorted_wrt.simps(1))
  next
    case (Some mt)
    define j where "j = index mt + length (matched mt)"
    define f where "f = \<lparr>fmatch = mt, pattern = p, mstart = index mt, mend = j\<rparr>"
    from exec_pattern[OF Some] have b: "i \<le> index mt" "index mt < j" "j \<le> length text"
      "text ! index mt = lead p"
      by (auto simp: j_def)
    then have "Suc (length text) - j < Suc (length text) - i" by simp
    from less[OF this, of "acc @ [f]"] obtain xs where
      xs: "execLoop p text j (acc @ [f]) = Some ((acc @ [f]) @ xs)"
        "\<forall>g\<in>set xs. entry_ok p text j g" "sorted_wrt (<) (map mstart xs)"
      by blast
    have "execLoop p text i acc = execLoop p text j (acc @ [f])"
      by (subst execLoop.simps) (simp add: Some j_def f_def)
    with xs have 1: "execLoop p text i acc = Some (acc @ f # xs)" by simp
    have 2: "entry_ok p text i f" using b by (simp add: entry_ok_def f_def)
    have 3: "\<forall>g\<in>set xs. entry_ok p text i g \<and> mstart f < mstart g"
      using xs(2) b by (auto simp: entry_ok_def f_def)
    from 1 2 3 xs(3) show ?thesis
      by (intro exI[of _ "f # xs"]) auto
  qed
qed

section \<open>The parts tile the text\<close>

lemma collect_total:
  "distinct ps \<Longrightarrow>
   \<exists>xs. collect ps text acc = Some (acc @ xs) \<and>
        (\<forall>f\<in>set xs. pattern f \<in> set ps \<and> entry_ok (pattern f) text 0 f) \<and>
        sorted_wrt (\<lambda>f g. pattern f = pattern g \<longrightarrow> mstart f < mstart g) xs"
proof (induction ps arbitrary: acc)
  case Nil
  then show ?case by simp
next
  case (Cons p ps)
  let ?R = "\<lambda>f g. pattern f = pattern g \<longrightarrow> mstart f < mstart g"
  obtain xs where xs: "execLoop p text 0 acc = Some (acc @ xs)"
    "\<forall>f\<in>set xs. entry_ok p text 0 f" "sorted_wrt (<) (map mstart xs)"
    using execLoop_total by blast
  from Cons.prems have "distinct ps" by simp
  from Cons.IH[OF this, of "acc @ xs"]
  obtain ys where ys: "collect ps text (acc @ xs) = Some ((acc @ xs) @ ys)"
    "\<forall>f\<in>set ys. pattern f \<in> set ps \<and> entry_ok (pattern f) text 0 f"
    "sorted_wrt ?R ys"
    by blast
  have px: "\<forall>f\<in>set xs. pattern f = p" using xs(2) by (simp add: entry_ok_def)
  have py: "\<forall>f\<in>set ys. pattern f \<noteq> p" using ys(2) Cons.prems by auto
  have 1: "collect (p # ps) text acc = Some (acc @ xs @ ys)"
    using xs(1) ys(1) by simp
  have 2: "\<forall>f\<in>set (xs @ ys). pattern f \<in> set (p # ps) \<and> entry_ok (pattern f) text 0 f"
    using xs(2) ys(2) px by auto
  have "sorted_wrt (\<lambda>f g. mstart f < mstart g) xs"
    using xs(3) by (simp add: sorted_wrt_map)
  then have "sorted_wrt ?R xs"
    by (rule sorted_wrt_mono_rel[rotated]) simp
  with ys(3) px py have 3: "sorted_wrt ?R (xs @ ys)"
    by (auto simp: sorted_wrt_append)
  from 1 2 3 show ?case by blast
qed

lemma allMatches_total:
  "\<exists>ms. allMatches text = Some ms \<and>
        (\<forall>f\<in>set ms. entry_ok (pattern f) text 0 f) \<and>
        sorted_wrt (\<lambda>f g. pattern f = pattern g \<longrightarrow> mstart f < mstart g) ms"
proof -
  have "distinct patterns" by (simp add: patterns_def)
  from collect_total[OF this, of "text" "[]"] show ?thesis
    unfolding allMatches_def by auto
qed

lemma chain_append: "chain a (rs @ ss) b \<longleftrightarrow> (\<exists>m. chain a rs m \<and> chain m ss b)"
  by (induction rs arbitrary: a) auto

lemma chain_snoc: "chain a (rs @ [(s, e)]) b \<longleftrightarrow> chain a rs s \<and> s \<le> e \<and> e = b"
  by (auto simp: chain_append)

lemma slice_append: "s \<le> e \<Longrightarrow> e \<le> b \<Longrightarrow> slice t s e @ slice t e b = slice t s b"
proof -
  assume a: "s \<le> e" "e \<le> b"
  then have "b - s = (e - s) + (b - e)" by simp
  moreover from a have "drop e t = drop (e - s) (drop s t)" by simp
  ultimately show ?thesis unfolding slice_def by (simp only: take_add)
qed

lemma chain_concat:
  "chain a rs b \<Longrightarrow> concat (map (\<lambda>(s, e). slice t s e) rs) = slice t a b \<and> a \<le> b"
proof (induction rs arbitrary: a)
  case Nil
  then show ?case by (simp add: slice_def)
next
  case (Cons r rs)
  obtain s e where r: "r = (s, e)" by (cases r)
  with Cons.prems have c: "s = a" "s \<le> e" "chain e rs b" by auto
  from Cons.IH[OF c(3)] have "concat (map (\<lambda>(s, e). slice t s e) rs) = slice t e b" "e \<le> b"
    by auto
  with c r show ?case by (simp add: slice_append)
qed

lemma removeOverlaps_separated: "separated e (removeOverlaps fs e)"
  by (induction fs arbitrary: e) auto

lemma removeOverlaps_subset: "set (removeOverlaps fs e) \<subseteq> set fs"
  by (induction fs arbitrary: e) auto

lemma render_plain_ok: "plain_ok text \<lparr>src_from = a, src_to = b, node = render p mt\<rparr>"
  by (cases p) (simp_all add: plain_ok_def)

lemma buildParts_inv:
  assumes "buildParts text vs parts cur = (parts', cur')"
    and "chain 0 (ranges parts) cur" and "separated cur vs" and "cur \<le> length text"
    and "\<forall>f\<in>set vs. mstart f \<le> mend f \<and> mend f \<le> length text"
    and "\<forall>p\<in>set parts. plain_ok text p"
  shows "chain 0 (ranges parts') cur' \<and> cur' \<le> length text \<and> (\<forall>p\<in>set parts'. plain_ok text p)
     \<and> (parts \<noteq> [] \<or> vs \<noteq> [] \<longrightarrow> parts' \<noteq> [])"
  using assms
proof (induction vs arbitrary: parts cur)
  case Nil
  then show ?case by auto
next
  case (Cons f fs)
  define gap where "gap = \<lparr>src_from = cur, src_to = mstart f, node = PlainText (slice text cur (mstart f))\<rparr>"
  define fm where "fm = \<lparr>src_from = mstart f, src_to = mend f, node = render (pattern f) (fmatch f)\<rparr>"
  define parts1 where "parts1 = (if mstart f > cur \<and> slice text cur (mstart f) \<noteq> [] then parts @ [gap] else parts)"
  from Cons.prems have f: "cur \<le> mstart f" "mstart f \<le> mend f" "mend f \<le> length text"
    "separated (mend f) fs" by auto
  have ne: "mstart f > cur \<Longrightarrow> slice text cur (mstart f) \<noteq> []"
    using f by (auto simp: slice_def)
  have c1: "chain 0 (ranges parts1) (mstart f)"
  proof (cases "mstart f > cur")
    case True
    with Cons.prems(2) ne show ?thesis
      by (simp add: parts1_def ranges_def gap_def chain_snoc)
  next
    case False
    with f have "mstart f = cur" by simp
    with Cons.prems(2) show ?thesis by (simp add: parts1_def)
  qed
  then have c2: "chain 0 (ranges (parts1 @ [fm])) (mend f)"
    using f by (simp add: ranges_def fm_def chain_snoc)
  have p2: "\<forall>p\<in>set (parts1 @ [fm]). plain_ok text p"
    using Cons.prems(6) by (auto simp: parts1_def gap_def fm_def plain_ok_def render_plain_ok[unfolded plain_ok_def, simplified])
  have b: "buildParts text fs (parts1 @ [fm]) (mend f) = (parts', cur')"
    using Cons.prems(1) by (auto simp: Let_def parts1_def gap_def fm_def split: if_splits)
  from Cons.IH[OF b c2 f(4) f(3) _ p2] Cons.prems(5) show ?case by auto
qed

lemma finishParts_inv:
  assumes "chain 0 (ranges parts) cur" and "cur \<le> length text"
    and "\<forall>p\<in>set parts. plain_ok text p"
  shows "chain 0 (ranges (finishParts text (parts, cur))) (length text) \<and>
         (\<forall>p\<in>set (finishParts text (parts, cur)). plain_ok text p)"
proof (cases "cur < length text")
  case True
  then have "slice_from text cur \<noteq> []" by (simp add: slice_from_def)
  with True assms show ?thesis
    by (auto simp: finishParts_def Let_def ranges_def chain_snoc plain_ok_def slice_def slice_from_def)
next
  case False
  with assms have e: "cur = length text" by simp
  show ?thesis
  proof (cases parts)
    case Nil
    with assms e show ?thesis
      by (simp add: finishParts_def ranges_def plain_ok_def slice_def)
  next
    case (Cons a list)
    with assms e show ?thesis
      by (simp add: finishParts_def)
  qed
qed

lemma inlineParts_total:
  "\<exists>ps. inlineParts text = Some ps \<and> chain 0 (ranges ps) (length text) \<and>
        (\<forall>p\<in>set ps. plain_ok text p)"
proof -
  obtain ms where ms: "allMatches text = Some ms" "\<forall>f\<in>set ms. entry_ok (pattern f) text 0 f"
    using allMatches_total by blast
  define vs where "vs = removeOverlaps (sortMatches ms) 0"
  have v: "validMatches text = Some vs" by (simp add: validMatches_def ms vs_def)
  have sub: "set vs \<subseteq> set ms"
    using removeOverlaps_subset[of "sortMatches ms" 0] by (simp add: vs_def sortMatches_def)
  have sep: "separated 0 vs" by (simp add: vs_def removeOverlaps_separated)
  have ok: "\<forall>f\<in>set vs. mstart f \<le> mend f \<and> mend f \<le> length text"
    using sub ms(2) by (fastforce simp: entry_ok_def)
  obtain parts' cur' where b: "buildParts text vs [] 0 = (parts', cur')"
    by (cases "buildParts text vs [] 0")
  from buildParts_inv[OF b _ sep _ ok] have
    "chain 0 (ranges parts') cur'" "cur' \<le> length text" "\<forall>p\<in>set parts'. plain_ok text p"
    by (auto simp: ranges_def)
  from finishParts_inv[OF this] v b show ?thesis
    by (simp add: inlineParts_def)
qed

lemma lead_asterisk: "lead p = lead q \<Longrightarrow> p \<noteq> q \<Longrightarrow> asterisk p \<and> asterisk q"
  by (cases p; cases q) simp_all

section \<open>Totality of the formatter\<close>

lemma formatInlineText_total: "\<exists>sp. formatInlineText text = Some sp"
  using inlineParts_total[of "text"] by (auto simp: formatInlineText_def)

lemma scanLine_total: "\<exists>st'. scanLine st i line = Some st'"
proof -
  have "\<And>t. formatInlineText t \<noteq> None" using formatInlineText_total by simp
  then show ?thesis
    by (auto simp: scanLine_def split: option.splits)
qed

lemma scanLines_total: "\<exists>st'. scanLines i ls st = Some st'"
proof (induction ls arbitrary: i st)
  case Nil
  then show ?case by simp
next
  case (Cons l ls)
  obtain st1 where "scanLine st i l = Some st1" using scanLine_total by blast
  with Cons[of "Suc i" st1] show ?case by simp
qed

lemma formatText_total: "\<exists>bs. formatText a = Some bs"
proof (cases a)
  case (JString s)
  obtain st' where "scanLines 0 (split_nl s) initial = Some st'"
    using scanLines_total by blast
  with JString show ?thesis by simp
qed simp_all

lemma execLoop_no_match:
  "exec (regex_of p) text i = None \<Longrightarrow> execLoop p text i acc = Some acc"
  by (subst execLoop.simps) simp

lemma collect_no_match:
  "\<forall>p\<in>set ps. exec (regex_of p) text 0 = None \<Longrightarrow> collect ps text acc = Some acc"
  by (induction ps) (simp_all add: execLoop_no_match)

lemma no_match_plain:
  assumes "\<forall>p\<in>set patterns. exec (regex_of p) text 0 = None"
  shows "formatInlineText text = Some [PlainText text]"
proof -
  from assms have "allMatches text = Some []"
    by (simp add: allMatches_def collect_no_match)
  then have "inlineParts text = Some (finishParts text ([], 0))"
    by (simp add: inlineParts_def validMatches_def sortMatches_def)
  moreover have "map node (finishParts text ([], 0)) = [PlainText text]"
    by (cases "text") (simp_all add: finishParts_def slice_from_def)
  ultimately show ?thesis by (simp add: formatInlineText_def)
qed

section \<open>Backtracking on lines of a known shape\<close>

lemma digit_not_ws: "is_digit c \<Longrightarrow> \<not> is_ws c"
  by (auto simp: is_digit_def is_ws_def is_line_terminator_def word_le_nat_alt)

lemma hash_not_ws: "\<not> is_ws (chr CHR ''#'')"
  by (simp add: is_ws_def is_line_terminator_def)

lemma bullet_not_ws: "c \<in> set [chr CHR ''-'', chr CHR ''*'', 0x2022] \<Longrightarrow> \<not> is_ws c"
  by (auto simp: is_ws_def is_line_terminator_def)

lemma tryCounts_all_fail:
  "\<forall>k\<in>set ks. matchHere re (pos + k) (drop k rest) (if grp then caps @ [take k rest] else caps) = None
   \<Longrightarrow> tryCounts re grp ks pos rest caps = None"
  by (induction ks) simp_all

lemma matchHere_lead_fail:
  assumes "atom_of it = Rep c lo hi g" and "0 < lo" and "rest = [] \<or> \<not> cset_mem c (hd rest)"
  shows "matchHere (it # re) pos rest caps = None"
proof (cases "matchHere (it # re) pos rest caps")
  case (Some r)
  obtain e caps' where "r = (e, caps')" by (cases r)
  with Some matchHere_lead[OF _ assms(1,2), of re pos rest caps e caps'] assms(3)
  show ?thesis by blast
qed simp

lemma matchHere_Bol_pos: "0 < pos \<Longrightarrow> matchHere (Plain Bol # re) pos rest caps = None"
  by simp

lemma first_match_all_fail:
  "\<forall>i\<in>set is. matchHere re i (drop i text) [] = None \<Longrightarrow> first_match re text is = None"
  by (induction "is") simp_all

lemma exec_Bol:
  "exec (Plain Bol # re) text 0 =
     map_option (\<lambda>(e, caps). \<lparr>index = 0, matched = slice text 0 e, captures = caps\<rparr>)
       (matchHere (Plain Bol # re) 0 text [])"
proof -
  define js where "js = [Suc 0..<Suc (length text)]"
  have n: "first_match (Plain Bol # re) text js = None"
  proof (rule first_match_all_fail, rule ballI)
    fix i assume "i \<in> set js"
    then have "0 < i" by (auto simp: js_def)
    then show "matchHere (Plain Bol # re) i (drop i text) [] = None"
      by (rule matchHere_Bol_pos)
  qed
  have e: "exec (Plain Bol # re) text 0 = first_match (Plain Bol # re) text (0 # js)"
    by (simp only: exec_def js_def upt_conv_Cons[OF zero_less_Suc])
  show ?thesis
    unfolding e
    by (cases "matchHere (Plain Bol # re) 0 text []")
      (simp_all add: n del: matchHere.simps split: prod.splits)
qed

lemma matchHere_shift:
  "no_bol re \<Longrightarrow> matchHere re (pos + d) rest caps =
     map_option (\<lambda>(e, c). (e + d, c)) (matchHere re pos rest caps)"
  and tryCounts_shift:
  "no_bol re \<Longrightarrow> tryCounts re grp ks (pos + d) rest caps =
     map_option (\<lambda>(e, c). (e + d, c)) (tryCounts re grp ks pos rest caps)"
proof (induction re pos rest caps and re grp ks pos rest caps rule: matchHere_tryCounts.induct)
  case (1 pos rest caps)
  then show ?case by simp
next
  case (2 it re pos rest caps)
  then show ?case by (cases "atom_of it") auto
next
  case (3 re grp pos rest caps)
  then show ?case by simp
next
  case (4 re grp k ks pos rest caps)
  define C where "C = (if grp then caps @ [take k rest] else caps)"
  from 4(1)[OF 4(3)] have a: "matchHere re (pos + d + k) (drop k rest) C =
    map_option (\<lambda>(e, c). (e + d, c)) (matchHere re (pos + k) (drop k rest) C)"
    by (simp add: C_def add.assoc add.commute[of d k])
  have u: "tryCounts re grp (k # ks) q rest caps =
    (case matchHere re (q + k) (drop k rest) C of Some r \<Rightarrow> Some r
     | None \<Rightarrow> tryCounts re grp ks q rest caps)" for q
    unfolding C_def by (rule tryCounts.simps)
  show ?case
  proof (cases "matchHere re (pos + k) (drop k rest) C")
    case None
    with a have "matchHere re (pos + d + k) (drop k rest) C = None" by simp
    with None 4(2)[OF None[unfolded C_def] 4(3)] show ?thesis
      unfolding u by (simp del: tryCounts.simps)
  next
    case (Some r)
    with a have "matchHere re (pos + d + k) (drop k rest) C = Some (case r of (e, c) \<Rightarrow> (e + d, c))"
      by simp
    with Some show ?thesis
      unfolding u by (simp del: tryCounts.simps)
  qed
qed

lemma run_append:
  "\<forall>x\<in>set xs. cset_mem c x \<Longrightarrow> run c (xs @ ys) = length xs + run c ys"
  by (simp add: run_def takeWhile_append2)

lemma run_Cons_not: "\<not> cset_mem c x \<Longrightarrow> run c (x # xs) = 0"
  by (simp add: run_def)

lemma run_Nil: "run c [] = 0"
  by (simp add: run_def)

lemma run_hd_ws:
  assumes "k < run c rest"
  shows "drop k rest \<noteq> [] \<and> cset_mem c (hd (drop k rest))"
proof -
  from assms have k: "k < length (takeWhile (cset_mem c) rest)" by (simp add: run_def)
  then have "k < length rest" using length_takeWhile_le[of "cset_mem c" rest] by simp
  moreover from k have "cset_mem c (rest ! k)"
    using nth_mem[OF k] set_takeWhileD takeWhile_nth by metis
  ultimately show ?thesis by (simp add: hd_drop_conv_nth)
qed

text \<open>A greedy \<^verbatim>\<open>\s*\<close> before an item that needs a non-space character takes all the spaces.\<close>

lemma skip_spaces:
  assumes "atom_of it = Rep c lo hi g" and "0 < lo" and "\<And>x. is_ws x \<Longrightarrow> \<not> cset_mem c x"
  shows "matchHere (Plain (Star Space) # it # re) pos rest caps =
         matchHere (it # re) (pos + run Space rest) (drop (run Space rest) rest) caps"
proof -
  define p where "p = run Space rest"
  have fail: "matchHere (it # re) (pos + k) (drop k rest) caps = None" if "k < p" for k
  proof -
    from run_hd_ws[OF that[unfolded p_def]] assms(3)
    have "\<not> cset_mem c (hd (drop k rest))" by simp
    then show ?thesis by (intro matchHere_lead_fail[OF assms(1,2)]) simp
  qed
  have "counts 0 None True p = p # rev [0..<p]" by (simp add: counts_def)
  moreover have "tryCounts (it # re) False (rev [0..<p]) pos rest caps = None"
    by (rule tryCounts_all_fail) (simp add: fail del: matchHere.simps)
  ultimately have "tryCounts (it # re) False (counts 0 None True p) pos rest caps =
      matchHere (it # re) (pos + p) (drop p rest) caps"
    by (simp del: matchHere.simps split: option.splits)
  then show ?thesis
    by (subst matchHere.simps(2)) (simp add: p_def del: matchHere.simps)
qed

section \<open>Trimming and the pushed node\<close>

lemma trim_ws_prefix: "\<forall>c\<in>set ws. is_ws c \<Longrightarrow> trim (ws @ line) = trim line"
  by (simp add: trim_def dropWhile_append2)

lemma dropWhile_snoc_keep: "\<not> P y \<Longrightarrow> dropWhile P (xs @ [y]) = dropWhile P xs @ [y]"
  by (induction xs) auto

lemma trim_Cons: "\<not> is_ws x \<Longrightarrow> \<exists>t. trim (x # xs) = x # t"
  by (simp add: trim_def dropWhile_snoc_keep)

lemma push_inject [simp]: "push st b = push st b' \<longleftrightarrow> b = b'"
proof
  assume "push st b = push st b'"
  then have "formattedLines (push st b) = formattedLines (push st b')" by simp
  then show "b = b'" by (simp add: push_def)
qed simp

lemma push_neq_enter [simp]: "st\<lparr>inCodeBlock := True\<rparr> \<noteq> push st b"
proof
  assume "st\<lparr>inCodeBlock := True\<rparr> = push st b"
  then have "formattedLines (st\<lparr>inCodeBlock := True\<rparr>) = formattedLines (push st b)" by simp
  then show False by (simp add: push_def)
qed

lemma push_neq_content [simp]: "st\<lparr>codeBlockContent := c\<rparr> \<noteq> push st b"
proof
  assume "st\<lparr>codeBlockContent := c\<rparr> = push st b"
  then have "formattedLines (st\<lparr>codeBlockContent := c\<rparr>) = formattedLines (push st b)" by simp
  then show False by (simp add: push_def)
qed

lemma push_close [simp]:
  "(push st b)\<lparr>codeBlockContent := [], inCodeBlock := False\<rparr> = push st b' \<Longrightarrow> b = b'"
proof -
  assume "(push st b)\<lparr>codeBlockContent := [], inCodeBlock := False\<rparr> = push st b'"
  then have "formattedLines ((push st b)\<lparr>codeBlockContent := [], inCodeBlock := False\<rparr>) = formattedLines (push st b')" by simp
  then show "b = b'" by (simp add: push_def)
qed

lemma scanLine_Ordered:
  assumes "scanLine st i line = Some (push st (OrderedItem i d sp))"
  shows "\<not> startsWith (trim line) fence \<and> \<not> inCodeBlock st \<and> trim line \<noteq> [] \<and>
     match_str line headerRegex = None \<and> \<not> startsWith (trim line) (ustr ''> '') \<and>
     (\<exists>m. match_str line numberedListRegex = Some m \<and> capture m 1 = d \<and>
          formatInlineText (capture m 2) = Some sp)"
  using assms
  by (auto simp: scanLine_def split: if_splits option.splits dest: push_close)

section \<open>Leading spaces before the list patterns\<close>

lemma tryCounts_succeeds:
  "k \<in> set ks \<Longrightarrow>
   matchHere re (pos + k) (drop k rest) (if grp then caps @ [take k rest] else caps) \<noteq> None \<Longrightarrow>
   tryCounts re grp ks pos rest caps \<noteq> None"
  by (induction ks) (auto split: option.splits)

lemma matchHere_caps:
  "matchHere re pos rest caps = Some (e, caps') \<Longrightarrow>
   \<exists>extra. caps' = caps @ extra \<and> length extra = length (filter is_group re)"
proof (induction re arbitrary: pos rest caps)
  case Nil
  then show ?case by simp
next
  case (Cons it re)
  show ?case
  proof (cases "atom_of it")
    case Bol
    with Cons.prems
    have m: "matchHere re pos rest (if is_group it then caps @ [Nil] else caps) = Some (e, caps')"
      by (simp split: if_splits)
    from Cons.IH[OF m] show ?thesis by (cases "is_group it") auto
  next
    case Eol
    with Cons.prems
    have m: "matchHere re pos rest (if is_group it then caps @ [Nil] else caps) = Some (e, caps')"
      by (simp split: if_splits)
    from Cons.IH[OF m] show ?thesis by (cases "is_group it") auto
  next
    case (Rep c l h g)
    with Cons.prems obtain k where
      m: "matchHere re (pos + k) (drop k rest) (if is_group it then caps @ [take k rest] else caps) = Some (e, caps')"
      by (auto dest!: tryCounts_Some)
    from Cons.IH[OF m] show ?thesis by (cases "is_group it") auto
  qed
qed

lemma match_str_Bol:
  "match_str line (Plain Bol # re) =
     map_option (\<lambda>(e, caps). \<lparr>index = 0, matched = slice line 0 e, captures = caps\<rparr>)
       (matchHere re 0 line [])"
  unfolding match_str_def exec_Bol by simp

lemma captures_match_str_Bol:
  "map_option captures (match_str line (Plain Bol # re)) = map_option snd (matchHere re 0 line [])"
  unfolding match_str_Bol by (cases "matchHere re 0 line []") auto

text \<open>Leading spaces before a pattern \<^verbatim>\<open>^\s*X...\<close>, \<open>X\<close> a class without spaces.\<close>

lemma ws_prefix_captures:
  assumes ws: "\<forall>c\<in>set ws. is_ws c"
    and it: "atom_of it = Rep c lo hi g" "0 < lo" "\<And>x. is_ws x \<Longrightarrow> \<not> cset_mem c x"
    and nb: "no_bol (it # re)"
  shows "map_option captures (match_str (ws @ line) (Plain Bol # Plain (Star Space) # it # re)) =
         map_option captures (match_str line (Plain Bol # Plain (Star Space) # it # re))"
proof -
  define p where "p = run Space line"
  from ws have r: "run Space (ws @ line) = length ws + p"
    by (simp add: run_append p_def)
  have "matchHere (Plain (Star Space) # it # re) 0 (ws @ line) [] =
      matchHere (it # re) (0 + run Space (ws @ line)) (drop (run Space (ws @ line)) (ws @ line)) []"
    by (rule skip_spaces[OF it])
  also have "\<dots> = matchHere (it # re) (p + length ws) (drop p line) []"
    unfolding r by (simp add: add.commute del: matchHere.simps)
  also have "\<dots> = map_option (\<lambda>(e, c). (e + length ws, c)) (matchHere (it # re) p (drop p line) [])"
    by (rule matchHere_shift[OF nb])
  finally have a: "map_option snd (matchHere (Plain (Star Space) # it # re) 0 (ws @ line) []) =
      map_option snd (matchHere (it # re) p (drop p line) [])"
    by (cases "matchHere (it # re) p (drop p line) []") auto
  have b: "matchHere (Plain (Star Space) # it # re) 0 line [] = matchHere (it # re) p (drop p line) []"
    using skip_spaces[OF it, of re 0 line "[]"] by (simp add: p_def del: matchHere.simps)
  show ?thesis unfolding captures_match_str_Bol a b ..
qed

lemma ws_prefix_no_match:
  assumes ws: "\<forall>c\<in>set ws. is_ws c"
    and it: "atom_of it = Rep c lo hi g" "0 < lo" "\<And>x. is_ws x \<Longrightarrow> \<not> cset_mem c x"
    and x: "\<not> is_ws x" "\<not> cset_mem c x"
  shows "match_str (ws @ x # rest) (Plain Bol # Plain (Star Space) # it # re) = None"
proof -
  from ws x(1) have r: "run Space (ws @ x # rest) = length ws"
    by (simp add: run_append run_Cons_not)
  have "matchHere (Plain (Star Space) # it # re) 0 (ws @ x # rest) [] =
      matchHere (it # re) (length ws) (x # rest) []"
    using skip_spaces[OF it, of re 0 "ws @ x # rest" "[]"] by (simp add: r del: matchHere.simps)
  also have "\<dots> = None"
    using x(2) by (intro matchHere_lead_fail[OF it(1,2)]) simp
  finally show ?thesis unfolding match_str_Bol by simp
qed

lemma numbered_ws:
  "\<forall>c\<in>set ws. is_ws c \<Longrightarrow>
   map_option captures (match_str (ws @ line) numberedListRegex) =
   map_option captures (match_str line numberedListRegex)"
  unfolding numberedListRegex_def
  by (rule ws_prefix_captures[where c = Digit and lo = 1 and hi = None and g = True])
     (auto dest: digit_not_ws)

lemma bullet_ws:
  "\<forall>c\<in>set ws. is_ws c \<Longrightarrow>
   map_option captures (match_str (ws @ line) bulletListRegex) =
   map_option captures (match_str line bulletListRegex)"
  unfolding bulletListRegex_def
  by (rule ws_prefix_captures[where c = "OneOf [chr CHR ''-'', chr CHR ''*'', 0x2022]"
        and lo = 1 and hi = "Some 1" and g = True])
     (use bullet_not_ws in auto)

lemma hash_not_digit: "\<not> is_digit (chr CHR ''#'')"
  by (simp add: is_digit_def)

lemma numbered_hash:
  "\<forall>c\<in>set ws. is_ws c \<Longrightarrow> match_str (ws @ chr CHR ''#'' # rest) numberedListRegex = None"
  unfolding numberedListRegex_def
  by (rule ws_prefix_no_match[where c = Digit and lo = 1 and hi = None and g = True])
     (use hash_not_ws hash_not_digit in \<open>auto dest: digit_not_ws\<close>)

lemma bullet_hash:
  "\<forall>c\<in>set ws. is_ws c \<Longrightarrow> match_str (ws @ chr CHR ''#'' # rest) bulletListRegex = None"
  unfolding bulletListRegex_def
  by (rule ws_prefix_no_match[where c = "OneOf [chr CHR ''-'', chr CHR ''*'', 0x2022]"
        and lo = 1 and hi = "Some 1" and g = True])
     (use bullet_not_ws hash_not_ws in auto)

lemma header_needs_hash:
  assumes "line = [] \<or> hd line \<noteq> chr CHR ''#''"
  shows "match_str line headerRegex = None"
proof -
  have "matchHere [Group (Between 1 6 (Lit (chr CHR ''#''))), Plain (Plus Space), Group (Plus Dot), Plain Eol]
          0 line [] = None"
    using assms by (intro matchHere_lead_fail[where c = "Lit (chr CHR ''#'')" and lo = 1]) auto
  then show ?thesis unfolding headerRegex_def match_str_Bol by simp
qed

section \<open>The header pattern and the fence\<close>

lemma counts_greedy_top:
  "lo \<le> n \<Longrightarrow> counts lo None True n = n # rev [lo..<n]"
  "lo \<le> n \<Longrightarrow> n \<le> h \<Longrightarrow> counts lo (Some h) True n = n # rev [lo..<n]"
  by (simp_all add: counts_def)

lemma counts_mem:
  "lo \<le> k \<Longrightarrow> k \<le> n \<Longrightarrow> (case hi of None \<Rightarrow> True | Some h \<Rightarrow> k \<le> h) \<Longrightarrow>
   k \<in> set (counts lo hi g n)"
  by (auto simp: counts_def Let_def split: option.splits)

lemma counts_set_hi: "k \<in> set (counts lo (Some h) g n) \<Longrightarrow> k \<le> h"
  by (auto simp: counts_def Let_def split: if_splits)

lemma run_all: "\<forall>x\<in>set xs. cset_mem c x \<Longrightarrow> run c xs = length xs"
  using run_append[of xs c "[]"] by (simp add: run_Nil)

lemma header_tail_matches:
  assumes "ws \<noteq> []" "\<forall>c\<in>set ws. is_ws c" "content \<noteq> []" "\<forall>c\<in>set content. \<not> is_line_terminator c"
  shows "matchHere [Plain (Plus Space), Group (Plus Dot), Plain Eol] q (ws @ content) caps \<noteq> None"
proof -
  have dot: "matchHere [Group (Plus Dot), Plain Eol] q' content caps \<noteq> None" for q'
  proof -
    from assms(4) have r: "run Dot content = length content" by (simp add: run_all)
    from assms(3) have k: "length content \<in> set (counts 1 None True (length content))"
      by (intro counts_mem) (simp_all add: Suc_le_eq)
    have "tryCounts [Plain Eol] True (counts 1 None True (length content)) q' content caps \<noteq> None"
      by (rule tryCounts_succeeds[OF k]) simp
    then show ?thesis by (simp add: r)
  qed
  from assms(2) have r: "run Space (ws @ content) = length ws + run Space content"
    by (simp add: run_append)
  from assms(1) have k: "length ws \<in> set (counts 1 None True (length ws + run Space content))"
    by (intro counts_mem) (simp_all add: Suc_le_eq)
  have "tryCounts [Group (Plus Dot), Plain Eol] False
          (counts 1 None True (length ws + run Space content)) q (ws @ content) caps \<noteq> None"
    by (rule tryCounts_succeeds[OF k]) (use dot[of "q + length ws"] in \<open>simp del: matchHere.simps\<close>)
  then show ?thesis
    by (subst matchHere.simps(2)) (simp add: r del: matchHere.simps)
qed

lemma header_match:
  assumes n: "1 \<le> n" "n \<le> 6"
    and ws: "ws \<noteq> []" "\<forall>c\<in>set ws. is_ws c"
    and content: "content \<noteq> []" "\<forall>c\<in>set content. \<not> is_line_terminator c"
  shows "\<exists>m t. match_str (replicate n (chr CHR ''#'') @ ws @ content) headerRegex = Some m \<and>
               captures m = [replicate n (chr CHR ''#''), t]"
proof -
  let ?h = "replicate n (chr CHR ''#'')"
  let ?line = "?h @ ws @ content"
  let ?R1 = "[Plain (Plus Space), Group (Plus Dot), Plain Eol]"
  from ws have "\<not> cset_mem (Lit (chr CHR ''#'')) (hd ws)"
    using hash_not_ws by (cases ws) auto
  with ws(1) have "run (Lit (chr CHR ''#'')) (ws @ content) = 0"
    by (cases ws) (simp_all add: run_Cons_not)
  then have r: "run (Lit (chr CHR ''#'')) ?line = n"
    by (simp add: run_append)
  from n have c: "counts 1 (Some 6) True n = n # rev [1..<n]"
    by (simp add: counts_greedy_top)
  obtain e caps' where s: "matchHere ?R1 n (ws @ content) [?h] = Some (e, caps')"
    using header_tail_matches[OF ws content, of n "[?h]"] by auto
  from matchHere_caps[OF s] obtain t where t: "caps' = [?h, t]"
    by (auto simp: length_Suc_conv)
  have "matchHere (Group (Between 1 6 (Lit (chr CHR ''#''))) # ?R1) 0 ?line [] = Some (e, caps')"
    using r c s by (subst matchHere.simps(2)) (simp del: matchHere.simps)
  with t show ?thesis
    unfolding headerRegex_def match_str_Bol by (simp del: matchHere.simps)
qed

lemma header_seven:
  "match_str (replicate 7 (chr CHR ''#'') @ rest) headerRegex = None"
proof -
  let ?line = "replicate 7 (chr CHR ''#'') @ rest"
  let ?R1 = "[Plain (Plus Space), Group (Plus Dot), Plain Eol]"
  let ?ks = "counts 1 (Some 6) True (run (Lit (chr CHR ''#'')) ?line)"
  have fail: "matchHere ?R1 (0 + k) (drop k ?line) (if True then [] @ [take k ?line] else []) = None"
    if "k \<in> set ?ks" for k
  proof -
    from counts_set_hi[OF that] have "k < 7" by simp
    then have "drop k ?line = chr CHR ''#'' # replicate (6 - k) (chr CHR ''#'') @ rest"
      by (cases "7 - k") (simp_all add: Suc_diff_le)
    then show ?thesis
      using hash_not_ws by (intro matchHere_lead_fail[where c = Space and lo = 1]) auto
  qed
  have "tryCounts ?R1 True ?ks 0 ?line [] = None"
    by (rule tryCounts_all_fail) (use fail in blast)
  then have "matchHere (Group (Between 1 6 (Lit (chr CHR ''#''))) # ?R1) 0 ?line [] = None"
    by (subst matchHere.simps(2)) (simp del: matchHere.simps)
  then show ?thesis
    unfolding headerRegex_def match_str_Bol by simp
qed

lemma header_ws:
  assumes "\<forall>c\<in>set ws. is_ws c" "match_str line headerRegex = None"
  shows "match_str (ws @ line) headerRegex = None"
proof (cases ws)
  case Nil
  with assms show ?thesis by simp
next
  case (Cons w ws')
  with assms(1) have "hd (ws @ line) \<noteq> chr CHR ''#''"
    using hash_not_ws by auto
  then show ?thesis by (simp add: header_needs_hash)
qed

lemma trim_hash: "\<forall>c\<in>set ws. is_ws c \<Longrightarrow> \<exists>t. trim (ws @ chr CHR ''#'' # rest) = chr CHR ''#'' # t"
  using trim_Cons[OF hash_not_ws] by (simp add: trim_ws_prefix)

lemma hash_line_paragraph:
  assumes "\<forall>c\<in>set ws. is_ws c" and "\<not> inCodeBlock st"
    and "match_str (ws @ chr CHR ''#'' # rest) headerRegex = None"
  shows "\<exists>sp. formatInlineText (ws @ chr CHR ''#'' # rest) = Some sp \<and>
     scanLine st i (ws @ chr CHR ''#'' # rest) = Some (push st (Paragraph i sp))"
proof -
  obtain t where t: "trim (ws @ chr CHR ''#'' # rest) = chr CHR ''#'' # t"
    using trim_hash[OF assms(1)] by blast
  obtain sp where sp: "formatInlineText (ws @ chr CHR ''#'' # rest) = Some sp"
    using formatInlineText_total by blast
  have "\<not> startsWith (trim (ws @ chr CHR ''#'' # rest)) fence"
    "\<not> startsWith (trim (ws @ chr CHR ''#'' # rest)) (ustr ''> '')"
    unfolding t by (simp_all add: startsWith_def fence_def ustr_def)
  with assms sp t numbered_hash[OF assms(1), of rest] bullet_hash[OF assms(1), of rest]
  show ?thesis
    by (simp add: scanLine_def)
qed

lemma scanLines_append:
  "scanLines i (xs @ ys) st =
     (case scanLines i xs st of None \<Rightarrow> None | Some st' \<Rightarrow> scanLines (i + length xs) ys st')"
  by (induction xs arbitrary: i st) (auto split: option.splits)

lemma in_fence_step:
  "inCodeBlock st \<Longrightarrow> \<not> startsWith (trim line) fence \<Longrightarrow>
   scanLine st i line = Some (st\<lparr>codeBlockContent := codeBlockContent st @ [line]\<rparr>)"
  by (simp add: scanLine_def)

lemma in_fence_body:
  "inCodeBlock st \<Longrightarrow> \<forall>l\<in>set body. \<not> startsWith (trim l) fence \<Longrightarrow>
   scanLines i body st = Some (st\<lparr>codeBlockContent := codeBlockContent st @ body\<rparr>)"
proof (induction body arbitrary: i st)
  case Nil
  then show ?case by simp
next
  case (Cons l body)
  let ?st = "st\<lparr>codeBlockContent := codeBlockContent st @ [l]\<rparr>"
  from Cons.prems have "scanLine st i l = Some ?st" by (simp add: in_fence_step)
  moreover from Cons.prems have "scanLines (Suc i) body ?st =
      Some (?st\<lparr>codeBlockContent := codeBlockContent ?st @ body\<rparr>)"
    by (intro Cons.IH) simp_all
  ultimately show ?case by simp
qed

section \<open>A line and the same line indented\<close>

lemma scanLine_Unordered:
  assumes "scanLine st i line = Some (push st (UnorderedItem i sp))"
  shows "\<not> startsWith (trim line) fence \<and> \<not> inCodeBlock st \<and> trim line \<noteq> [] \<and>
     match_str line headerRegex = None \<and> \<not> startsWith (trim line) (ustr ''> '') \<and>
     match_str line numberedListRegex = None \<and>
     (\<exists>m. match_str line bulletListRegex = Some m \<and> formatInlineText (capture m 1) = Some sp)"
  using assms
  by (auto simp: scanLine_def split: if_splits option.splits dest: push_close)

lemma scanLine_Blockquote:
  assumes "scanLine st i line = Some (push st (Blockquote i sp))"
  shows "\<not> startsWith (trim line) fence \<and> \<not> inCodeBlock st \<and> trim line \<noteq> [] \<and>
     match_str line headerRegex = None \<and> startsWith (trim line) (ustr ''> '') \<and>
     formatInlineText (slice_from (trim line) 2) = Some sp"
  using assms
  by (auto simp: scanLine_def split: if_splits option.splits dest: push_close)

lemma scanLine_Header:
  assumes "scanLine st i line = Some (push st (Header i n sp))"
  shows "\<not> startsWith (trim line) fence \<and> \<not> inCodeBlock st \<and> trim line \<noteq> [] \<and>
     match_str line headerRegex \<noteq> None"
  using assms
  by (auto simp: scanLine_def split: if_splits option.splits dest: push_close)

lemma same_captures:
  assumes "map_option captures x = map_option captures (Some m)"
  shows "\<exists>m'. x = Some m' \<and> (\<forall>k. capture m' k = capture m k)"
  using assms by (cases x) (auto simp: capture_def)

lemma ws_Ordered:
  assumes ws: "\<forall>c\<in>set ws. is_ws c"
    and l: "scanLine st i line = Some (push st (OrderedItem i d sp))"
  shows "scanLine st i (ws @ line) = Some (push st (OrderedItem i d sp))"
proof -
  from scanLine_Ordered[OF l] obtain m where f: "\<not> startsWith (trim line) fence"
    "\<not> inCodeBlock st" "trim line \<noteq> []" "match_str line headerRegex = None"
    "\<not> startsWith (trim line) (ustr ''> '')" "match_str line numberedListRegex = Some m"
    "capture m 1 = d" "formatInlineText (capture m 2) = Some sp"
    by blast
  from numbered_ws[OF ws, of line] f(6) obtain m' where
    m': "match_str (ws @ line) numberedListRegex = Some m'" "\<forall>k. capture m' k = capture m k"
    using same_captures by metis
  from f m' header_ws[OF ws f(4)] show ?thesis
    by (simp add: scanLine_def trim_ws_prefix[OF ws])
qed

lemma ws_Unordered:
  assumes ws: "\<forall>c\<in>set ws. is_ws c"
    and l: "scanLine st i line = Some (push st (UnorderedItem i sp))"
  shows "scanLine st i (ws @ line) = Some (push st (UnorderedItem i sp))"
proof -
  from scanLine_Unordered[OF l] obtain m where f: "\<not> startsWith (trim line) fence"
    "\<not> inCodeBlock st" "trim line \<noteq> []" "match_str line headerRegex = None"
    "\<not> startsWith (trim line) (ustr ''> '')" "match_str line numberedListRegex = None"
    "match_str line bulletListRegex = Some m" "formatInlineText (capture m 1) = Some sp"
    by blast
  from bullet_ws[OF ws, of line] f(7) obtain m' where
    m': "match_str (ws @ line) bulletListRegex = Some m'" "\<forall>k. capture m' k = capture m k"
    using same_captures by metis
  from numbered_ws[OF ws, of line] f(6) have n: "match_str (ws @ line) numberedListRegex = None"
    by simp
  from f m' n header_ws[OF ws f(4)] show ?thesis
    by (simp add: scanLine_def trim_ws_prefix[OF ws])
qed

lemma ws_Blockquote:
  assumes ws: "\<forall>c\<in>set ws. is_ws c"
    and l: "scanLine st i line = Some (push st (Blockquote i sp))"
  shows "scanLine st i (ws @ line) = Some (push st (Blockquote i sp))"
proof -
  from scanLine_Blockquote[OF l] have f: "\<not> startsWith (trim line) fence"
    "\<not> inCodeBlock st" "trim line \<noteq> []" "match_str line headerRegex = None"
    "startsWith (trim line) (ustr ''> '')" "formatInlineText (slice_from (trim line) 2) = Some sp"
    by blast+
  from f header_ws[OF ws f(4)] show ?thesis
    by (simp add: scanLine_def trim_ws_prefix[OF ws])
qed

lemma ws_fence:
  assumes ws: "\<forall>c\<in>set ws. is_ws c" and l: "startsWith (trim line) fence"
  shows "startsWith (trim (ws @ line)) fence \<and> scanLine st i (ws @ line) = scanLine st i line"
  using l by (simp add: scanLine_def trim_ws_prefix[OF ws])

lemma ws_Header:
  assumes ws: "\<forall>c\<in>set ws. is_ws c" "ws \<noteq> []"
    and l: "scanLine st i line = Some (push st (Header i n sp))"
  shows "\<exists>sp'. formatInlineText (ws @ line) = Some sp' \<and>
     scanLine st i (ws @ line) = Some (push st (Paragraph i sp'))"
proof -
  from scanLine_Header[OF l] have f: "\<not> inCodeBlock st" "match_str line headerRegex \<noteq> None"
    by blast+
  from f(2) header_needs_hash[of line] have "line \<noteq> [] \<and> hd line = chr CHR ''#''"
    by (cases "line = [] \<or> hd line \<noteq> chr CHR ''#''") (simp_all del: of_char_Char)
  then have "line \<noteq> []" "hd line = chr CHR ''#''" by blast+
  then obtain rest where r: "line = chr CHR ''#'' # rest"
    by (cases line) simp_all
  from ws have "hd (ws @ line) \<noteq> chr CHR ''#''"
    using hash_not_ws by (cases ws) auto
  then have "match_str (ws @ chr CHR ''#'' # rest) headerRegex = None"
    unfolding r[symmetric] by (simp add: header_needs_hash)
  from hash_line_paragraph[OF ws(1) f(1) this] show ?thesis
    unfolding r .
qed

section \<open>Texts whose delimiters have no partner\<close>

lemma matchHere_needs:
  "it \<in> set re \<Longrightarrow> atom_of it = Rep (Lit c) lo hi g \<Longrightarrow> 0 < lo \<Longrightarrow>
   matchHere re pos rest caps = Some (e, caps') \<Longrightarrow> c \<in> set rest"
proof (induction re arbitrary: pos rest caps)
  case Nil
  then show ?case by simp
next
  case (Cons it' re)
  show ?case
  proof (cases "it = it'")
    case True
    from matchHere_lead[OF Cons.prems(4)[folded True] Cons.prems(2,3)]
    show ?thesis by (cases rest) auto
  next
    case False
    with Cons.prems(1) have mem: "it \<in> set re" by simp
    show ?thesis
    proof (cases "atom_of it'")
      case Bol
      with Cons.prems(4)
      have "matchHere re pos rest (if is_group it' then caps @ [Nil] else caps) = Some (e, caps')"
        by (simp split: if_splits)
      from Cons.IH[OF mem Cons.prems(2,3) this] show ?thesis .
    next
      case Eol
      with Cons.prems(4)
      have "matchHere re pos rest (if is_group it' then caps @ [Nil] else caps) = Some (e, caps')"
        by (simp split: if_splits)
      from Cons.IH[OF mem Cons.prems(2,3) this] show ?thesis .
    next
      case (Rep c' l h g')
      with Cons.prems(4) obtain k where
        "matchHere re (pos + k) (drop k rest) (if is_group it' then caps @ [take k rest] else caps)
           = Some (e, caps')"
        by (auto dest!: tryCounts_Some)
      from Cons.IH[OF mem Cons.prems(2,3) this] show ?thesis by (rule in_set_dropD)
    qed
  qed
qed

lemma count_list_drop: "count_list (drop n xs) c \<le> count_list xs c"
proof -
  have "count_list (take n xs @ drop n xs) c = count_list (take n xs) c + count_list (drop n xs) c"
    by (rule count_list_append)
  then show ?thesis by simp
qed

lemma lead_and_later:
  assumes m: "matchHere (Plain (One (Lit c)) # re) pos rest caps = Some (e, caps')"
    and it: "it \<in> set re" "atom_of it = Rep (Lit c) lo hi g" "0 < lo"
  shows "2 \<le> count_list rest c"
proof -
  from m obtain k where k: "k \<in> set (counts 1 (Some 1) True (run (Lit c) rest))"
    and r: "matchHere re (pos + k) (drop k rest) caps = Some (e, caps')"
    by (auto dest!: tryCounts_Some)
  from counts_set[OF k] have k1: "1 \<le> k" by simp
  from matchHere_lead[OF m, of "Lit c" 1 "Some 1" True] obtain tl' where
    rest: "rest = c # tl'"
    by (cases rest) auto
  from matchHere_needs[OF it r] have "c \<in> set (drop k rest)" .
  with k1 rest have "c \<in> set (drop (k - 1) tl')"
    by (cases k) simp_all
  then have "c \<in> set tl'" by (rule in_set_dropD)
  then have "0 < count_list tl' c" using count_list_0_iff[of tl' c] by simp
  with rest show ?thesis by simp
qed

lemma regex_of_lead_later:
  "p \<noteq> LinkP \<Longrightarrow>
   \<exists>re. regex_of p = Plain (One (Lit (lead p))) # re \<and> Plain (One (Lit (lead p))) \<in> set re"
  by (cases p) simp_all

lemma asterisk_or_code_two:
  assumes "p \<noteq> LinkP" and "matchHere (regex_of p) pos rest caps = Some (e, caps')"
  shows "2 \<le> count_list rest (lead p)"
proof -
  from regex_of_lead_later[OF assms(1)] obtain re where
    re: "regex_of p = Plain (One (Lit (lead p))) # re" and mem: "Plain (One (Lit (lead p))) \<in> set re"
    by blast
  from assms(2) have m: "matchHere (Plain (One (Lit (lead p))) # re) pos rest caps = Some (e, caps')"
    unfolding re .
  show ?thesis
    by (rule lead_and_later[OF m mem, of 1 "Some 1" True]) simp_all
qed

lemma single_delimiter_no_match:
  assumes "p \<noteq> LinkP" and "count_list text (lead p) \<le> 1"
  shows "exec (regex_of p) text i = None"
proof (cases "exec (regex_of p) text i")
  case (Some mt)
  from exec_Some[OF Some] asterisk_or_code_two[OF assms(1)]
  have "2 \<le> count_list (drop (index mt) text) (lead p)" by blast
  with count_list_drop[of "index mt" "text" "lead p"] assms(2) show ?thesis by simp
qed simp

lemma link_needs_all:
  assumes "exec (regex_of LinkP) text i = Some mt"
  shows "chr CHR ''['' \<in> set text \<and> chr CHR '']'' \<in> set text \<and>
         chr CHR ''('' \<in> set text \<and> chr CHR '')'' \<in> set text"
proof -
  from exec_Some[OF assms] have
    m: "matchHere (regex_of LinkP) (index mt) (drop (index mt) text) [] =
          Some (index mt + length (matched mt), captures mt)"
    by simp
  have "c \<in> set text" if "Plain (One (Lit c)) \<in> set (regex_of LinkP)" for c
    using matchHere_needs[OF that _ _ m, of c 1 "Some 1" True] by (auto dest: in_set_dropD)
  then show ?thesis by simp
qed

lemma broken_link_no_match:
  assumes "chr CHR ''['' \<notin> set text \<or> chr CHR '']'' \<notin> set text \<or>
           chr CHR ''('' \<notin> set text \<or> chr CHR '')'' \<notin> set text"
  shows "exec (regex_of LinkP) text i = None"
  using assms link_needs_all[of "text" i] by (cases "exec (regex_of LinkP) text i") auto

lemma unmatched_delimiters_plain:
  assumes "count_list text (chr CHR ''*'') \<le> 1" and "count_list text (chr CHR 0x60) \<le> 1"
    and "chr CHR ''['' \<notin> set text \<or> chr CHR '']'' \<notin> set text \<or>
         chr CHR ''('' \<notin> set text \<or> chr CHR '')'' \<notin> set text"
  shows "formatInlineText text = Some [PlainText text]"
proof (rule no_match_plain, rule ballI)
  fix p assume "p \<in> set patterns"
  show "exec (regex_of p) text 0 = None"
  proof (cases p)
    case LinkP
    with assms(3) show ?thesis by (simp only: broken_link_no_match)
  next
    case BoldTriple
    with assms(1) show ?thesis by (intro single_delimiter_no_match) simp_all
  next
    case BoldDouble
    with assms(1) show ?thesis by (intro single_delimiter_no_match) simp_all
  next
    case ItalicP
    with assms(1) show ?thesis by (intro single_delimiter_no_match) simp_all
  next
    case CodeP
    with assms(2) show ?thesis by (intro single_delimiter_no_match) simp_all
  qed
qed

section \<open>The claims about the inline resolver\<close>

text \<open>
  C1 (partition and coverage). For every text the resolver returns, and the source ranges
  of the parts it pushed (the gap before each kept match, the kept match with its
  delimiters, the remainder) are contiguous, do not overlap and ascend from offset 0 to
  the length of the text; the slices of the text at these ranges, concatenated in output
  order, are the text itself; every plain span shows exactly the slice of its range.
\<close>

theorem formatInlineText_partition:
  "\<exists>ps. inlineParts text = Some ps \<and> formatInlineText text = Some (map node ps) \<and>
        chain 0 (ranges ps) (length text) \<and>
        concat (map (\<lambda>p. slice text (src_from p) (src_to p)) ps) = text \<and>
        (\<forall>p\<in>set ps. plain_ok text p)"
proof -
  obtain ps where ps: "inlineParts text = Some ps" "chain 0 (ranges ps) (length text)"
    "\<forall>p\<in>set ps. plain_ok text p"
    using inlineParts_total by blast
  from chain_concat[OF ps(2), of "text"]
  have "concat (map (\<lambda>p. slice text (src_from p) (src_to p)) ps) = text"
    by (simp add: ranges_def slice_def comp_def)
  with ps show ?thesis by (simp add: formatInlineText_def)
qed

theorem formatInlineText_partition_witness:
  "inlineParts (ustr ''**a** *b*'') = Some
     [\<lparr>src_from = 0, src_to = 5, node = Bold (ustr ''a'')\<rparr>,
      \<lparr>src_from = 5, src_to = 6, node = PlainText (ustr '' '')\<rparr>,
      \<lparr>src_from = 6, src_to = 9, node = Italic (ustr ''b'')\<rparr>] \<and>
   chain 0 [(0, 5), (5, 6), (6, 9)] (length (ustr ''**a** *b*'')) \<and>
   slice (ustr ''**a** *b*'') 0 5 @ slice (ustr ''**a** *b*'') 5 6 @ slice (ustr ''**a** *b*'') 6 9
     = ustr ''**a** *b*'' \<and>
   plain_ok (ustr ''**a** *b*'') \<lparr>src_from = 5, src_to = 6, node = PlainText (ustr '' '')\<rparr>"
proof -
  have e: "inlineParts (ustr ''**a** *b*'') = Some
     [\<lparr>src_from = 0, src_to = 5, node = Bold (ustr ''a'')\<rparr>,
      \<lparr>src_from = 5, src_to = 6, node = PlainText (ustr '' '')\<rparr>,
      \<lparr>src_from = 6, src_to = 9, node = Italic (ustr ''b'')\<rparr>]"
    by code_simp
  from formatInlineText_partition[of "ustr ''**a** *b*''"] show ?thesis
    unfolding e by (simp add: ranges_def)
qed

text \<open>
  C2 as stated fails: in \<^verbatim>\<open>Hello **world\<close> the two asterisks are a match of the italic
  pattern \<^verbatim>\<open>\*(.*?)\*\<close> with empty content, so the result is not one plain span.
\<close>

theorem unterminated_bold_counterexample:
  "formatInlineText (ustr ''Hello **world'') =
     Some [PlainText (ustr ''Hello ''), Italic [], PlainText (ustr ''world'')] \<and>
   formatInlineText (ustr ''Hello **world'') \<noteq> Some [PlainText (ustr ''Hello **world'')]"
  by code_simp

text \<open>
  C2, amended. The resolver never fails: it returns spans for every text. Unmatched
  delimiters satisfy no pattern and are emitted as literal plain text: in a text with at
  most one asterisk, at most one backtick and without at least one of the four link
  delimiters \<^verbatim>\<open>[\<close>, \<^verbatim>\<open>]\<close>, \<^verbatim>\<open>(\<close>, \<^verbatim>\<open>)\<close>, no pattern matches at any offset, and the
  result is one plain span equal to the text, as for \<^verbatim>\<open>Hello *world\<close>; more generally
  every text in which no pattern matches is emitted as one plain span. A doubled asterisk,
  however, is itself a match of the italic pattern with empty content:
  \<^verbatim>\<open>Hello **world\<close> yields the plain span \<^verbatim>\<open>Hello \<close>, an empty italic span and the
  plain span \<^verbatim>\<open>world\<close>.
\<close>

theorem unmatched_fail_open:
  "(\<exists>sp. formatInlineText text = Some sp) \<and>
   (count_list text (chr CHR ''*'') \<le> 1 \<and> count_list text (chr CHR 0x60) \<le> 1 \<and>
    (chr CHR ''['' \<notin> set text \<or> chr CHR '']'' \<notin> set text \<or>
     chr CHR ''('' \<notin> set text \<or> chr CHR '')'' \<notin> set text) \<longrightarrow>
      (\<forall>p\<in>set patterns. \<forall>i. exec (regex_of p) text i = None) \<and>
      formatInlineText text = Some [PlainText text]) \<and>
   ((\<forall>p\<in>set patterns. exec (regex_of p) text 0 = None) \<longrightarrow>
      formatInlineText text = Some [PlainText text]) \<and>
   formatInlineText (ustr ''Hello *world'') = Some [PlainText (ustr ''Hello *world'')] \<and>
   formatInlineText (ustr ''Hello **world'') =
     Some [PlainText (ustr ''Hello ''), Italic [], PlainText (ustr ''world'')]"
proof -
  have 1: "(\<forall>p\<in>set patterns. \<forall>i. exec (regex_of p) text i = None) \<and>
      formatInlineText text = Some [PlainText text]"
    if h: "count_list text (chr CHR ''*'') \<le> 1" "count_list text (chr CHR 0x60) \<le> 1"
      "chr CHR ''['' \<notin> set text \<or> chr CHR '']'' \<notin> set text \<or>
       chr CHR ''('' \<notin> set text \<or> chr CHR '')'' \<notin> set text"
  proof -
    have "exec (regex_of p) text i = None" for p i
    proof (cases "p = LinkP")
      case True
      with h(3) show ?thesis by (simp only: broken_link_no_match)
    next
      case False
      with h(1,2) have "count_list text (lead p) \<le> 1" by (cases p) simp_all
      with False show ?thesis by (rule single_delimiter_no_match)
    qed
    with unmatched_delimiters_plain[OF h] show ?thesis by blast
  qed
  have 2: "formatInlineText (ustr ''Hello *world'') = Some [PlainText (ustr ''Hello *world'')]"
    by code_simp
  have 3: "formatInlineText (ustr ''Hello **world'') =
     Some [PlainText (ustr ''Hello ''), Italic [], PlainText (ustr ''world'')]"
    by code_simp
  from 1 2 3 show ?thesis
    using formatInlineText_total[of "text"] no_match_plain[of "text"] by blast
qed

theorem unmatched_fail_open_witness:
  "count_list (ustr ''x *y `z [w]('') (chr CHR ''*'') \<le> 1 \<and>
   count_list (ustr ''x *y `z [w]('') (chr CHR 0x60) \<le> 1 \<and>
   chr CHR '')'' \<notin> set (ustr ''x *y `z [w]('') \<and>
   exec (regex_of LinkP) (ustr ''x *y `z [w]('') 0 = None \<and>
   exec (regex_of BoldTriple) (ustr ''x *y `z [w]('') 0 = None \<and>
   exec (regex_of BoldDouble) (ustr ''x *y `z [w]('') 0 = None \<and>
   exec (regex_of ItalicP) (ustr ''x *y `z [w]('') 0 = None \<and>
   exec (regex_of CodeP) (ustr ''x *y `z [w]('') 0 = None \<and>
   formatInlineText (ustr ''x *y `z [w]('') = Some [PlainText (ustr ''x *y `z [w]('')]"
proof -
  let ?w = "ustr ''x *y `z [w](''"
  have c: "count_list ?w (chr CHR ''*'') \<le> 1" "count_list ?w (chr CHR 0x60) \<le> 1"
    "chr CHR '')'' \<notin> set ?w"
    by (simp_all add: ustr_def)
  note t = unmatched_fail_open[of ?w]
  from t c have n: "\<forall>p\<in>set patterns. \<forall>i. exec (regex_of p) ?w i = None"
    by blast
  then have n0: "\<forall>p\<in>set patterns. exec (regex_of p) ?w 0 = None"
    by blast
  with t have "formatInlineText ?w = Some [PlainText ?w]"
    by blast
  moreover from n0 have "exec (regex_of LinkP) ?w 0 = None"
    "exec (regex_of BoldTriple) ?w 0 = None" "exec (regex_of BoldDouble) ?w 0 = None"
    "exec (regex_of ItalicP) ?w 0 = None" "exec (regex_of CodeP) ?w 0 = None"
    by (simp_all add: patterns_def)
  ultimately show ?thesis using c by blast
qed

text \<open>
  C3 (priority and non-overlap). For \<^verbatim>\<open>***x***\<close> the only kept match is the one of the
  triple-asterisk pattern, over the whole token, and the result is the single bold span
  \<^verbatim>\<open>x\<close>; for \<^verbatim>\<open>**a** *b*\<close> the result is exactly the bold span \<^verbatim>\<open>a\<close>, the plain
  span of the gap and the italic span \<^verbatim>\<open>b\<close>, in this order.
\<close>

theorem priority_examples:
  "map_option (map (\<lambda>f. (pattern f, mstart f, mend f))) (validMatches (ustr ''***x***''))
     = Some [(BoldTriple, 0, 7)] \<and>
   formatInlineText (ustr ''***x***'') = Some [Bold (ustr ''x'')] \<and>
   formatInlineText (ustr ''**a** *b*'') =
     Some [Bold (ustr ''a''), PlainText (ustr '' ''), Italic (ustr ''b'')]"
  by code_simp

text \<open>
  C4 as stated fails: in \<^verbatim>\<open>***x***\<close> the triple-asterisk, the double-asterisk and the
  italic pattern each have a match that starts at offset 0.
\<close>

theorem pooled_ties_counterexample:
  "map_option (map (\<lambda>f. (pattern f, mstart f, mend f))) (allMatches (ustr ''***x***''))
     = Some [(BoldTriple, 0, 7), (BoldDouble, 0, 6), (ItalicP, 0, 2), (ItalicP, 2, 5),
             (ItalicP, 5, 7)]
   \<and> \<not> distinct (map mstart (the (allMatches (ustr ''***x***''))))"
  by code_simp

text \<open>
  C4, amended. For every text the pooled list exists, and two of its occurrences that
  have the same start offset come from two different families, both among the three
  asterisk families (bold-triple, bold-double, italic). So two occurrences of one family
  never tie, and an occurrence of the link or of the inline-code family ties with none.
\<close>

theorem pooled_ties_only_asterisk:
  "\<exists>ms. allMatches text = Some ms \<and>
     (\<forall>i j. i < j \<and> j < length ms \<and> mstart (ms ! i) = mstart (ms ! j) \<longrightarrow>
        pattern (ms ! i) \<noteq> pattern (ms ! j) \<and> asterisk (pattern (ms ! i)) \<and>
        asterisk (pattern (ms ! j)))"
proof -
  obtain ms where ms: "allMatches text = Some ms" "\<forall>f\<in>set ms. entry_ok (pattern f) text 0 f"
    "sorted_wrt (\<lambda>f g. pattern f = pattern g \<longrightarrow> mstart f < mstart g) ms"
    using allMatches_total by blast
  have "pattern (ms ! i) \<noteq> pattern (ms ! j) \<and> asterisk (pattern (ms ! i)) \<and>
        asterisk (pattern (ms ! j))"
    if ij: "i < j" "j < length ms" "mstart (ms ! i) = mstart (ms ! j)" for i j
  proof -
    have ne: "pattern (ms ! i) \<noteq> pattern (ms ! j)"
    proof
      assume "pattern (ms ! i) = pattern (ms ! j)"
      with ms(3) ij(1,2) have "mstart (ms ! i) < mstart (ms ! j)"
        by (simp add: sorted_wrt_iff_nth_less)
      with ij(3) show False by simp
    qed
    from ij have "ms ! i \<in> set ms" "ms ! j \<in> set ms" by simp_all
    with ms(2) have "text ! mstart (ms ! i) = lead (pattern (ms ! i))"
      "text ! mstart (ms ! j) = lead (pattern (ms ! j))"
      unfolding entry_ok_def by blast+
    with ij(3) have "lead (pattern (ms ! i)) = lead (pattern (ms ! j))" by simp
    from lead_asterisk[OF this ne] ne show ?thesis by simp
  qed
  with ms(1) show ?thesis by blast
qed

theorem pooled_ties_only_asterisk_witness:
  "\<exists>ms. allMatches (ustr ''***x***'') = Some ms \<and> (0::nat) < 1 \<and> 1 < length ms \<and>
     mstart (ms ! 0) = mstart (ms ! 1) \<and>
     pattern (ms ! 0) \<noteq> pattern (ms ! 1) \<and> asterisk (pattern (ms ! 0)) \<and>
     asterisk (pattern (ms ! 1))"
proof -
  obtain ms where ms: "allMatches (ustr ''***x***'') = Some ms"
    and h: "\<forall>i j. i < j \<and> j < length ms \<and> mstart (ms ! i) = mstart (ms ! j) \<longrightarrow>
        pattern (ms ! i) \<noteq> pattern (ms ! j) \<and> asterisk (pattern (ms ! i)) \<and>
        asterisk (pattern (ms ! j))"
    using pooled_ties_only_asterisk[of "ustr ''***x***''"] by blast
  have e: "map_option (map (\<lambda>f. (pattern f, mstart f, mend f))) (allMatches (ustr ''***x***''))
     = Some [(BoldTriple, 0, 7), (BoldDouble, 0, 6), (ItalicP, 0, 2), (ItalicP, 2, 5),
             (ItalicP, 5, 7)]"
    by code_simp
  with ms have m: "map (\<lambda>f. (pattern f, mstart f, mend f)) ms =
    [(BoldTriple, 0, 7), (BoldDouble, 0, 6), (ItalicP, 0, 2), (ItalicP, 2, 5), (ItalicP, 5, 7)]"
    by simp
  have "length ms = length (map (\<lambda>f. (pattern f, mstart f, mend f)) ms)" by simp
  also have "\<dots> = 5" unfolding m by simp
  finally have l: "length ms = 5" .
  have "mstart (ms ! 0) = 0" "mstart (ms ! 1) = 0"
    using arg_cong[OF m, of "\<lambda>xs. fst (snd (xs ! 0))"]
      arg_cong[OF m, of "\<lambda>xs. fst (snd (xs ! 1))"] l
    by simp_all
  with h[rule_format, of 0 1] l ms show ?thesis by auto
qed

section \<open>The claims about the block scanner\<close>

text \<open>
  C5 (fence isolation). While the scanner is inside a fence, a line that is not itself a
  fence marker is appended verbatim to the accumulated content: no node is pushed, the line
  is not classified and no inline formatting is computed from it. The fence marker that
  ends the block pushes one code block whose content is the accumulated lines joined by
  line feeds. So an opening fence, lines without a fence marker and a closing fence give
  exactly one code block that holds these lines as they are; in particular
  \<^verbatim>\<open>**not bold**\<close> inside a fence stays \<^verbatim>\<open>**not bold**\<close>.
\<close>

theorem fence_isolation:
  "(inCodeBlock st \<and> \<not> startsWith (trim line) fence \<longrightarrow>
      scanLine st i line = Some (st\<lparr>codeBlockContent := codeBlockContent st @ [line]\<rparr>)) \<and>
   (inCodeBlock st \<and> startsWith (trim line) fence \<longrightarrow>
      scanLine st i line =
        Some ((push st (CodeBlock i (join_nl (codeBlockContent st))))
                \<lparr>codeBlockContent := [], inCodeBlock := False\<rparr>)) \<and>
   (\<not> inCodeBlock st \<and> startsWith (trim opening) fence \<and> startsWith (trim closing) fence \<and>
    (\<forall>l\<in>set body. \<not> startsWith (trim l) fence) \<longrightarrow>
      scanLines i (opening # body @ [closing]) st =
        Some ((push st (CodeBlock (Suc (i + length body)) (join_nl (codeBlockContent st @ body))))
                \<lparr>codeBlockContent := [], inCodeBlock := False\<rparr>)) \<and>
   formatText (JString (fence @ [0x0A] @ ustr ''**not bold**'' @ [0x0A] @ fence)) =
     Some [CodeBlock 2 (ustr ''**not bold**'')]"
proof -
  have 1: "scanLine st i line = Some (st\<lparr>codeBlockContent := codeBlockContent st @ [line]\<rparr>)"
    if "inCodeBlock st" "\<not> startsWith (trim line) fence"
    using that by (rule in_fence_step)
  have 2: "scanLine st i line =
        Some ((push st (CodeBlock i (join_nl (codeBlockContent st))))
                \<lparr>codeBlockContent := [], inCodeBlock := False\<rparr>)"
    if "inCodeBlock st" "startsWith (trim line) fence"
    using that by (simp add: scanLine_def)
  have 3: "scanLines i (opening # body @ [closing]) st =
        Some ((push st (CodeBlock (Suc (i + length body)) (join_nl (codeBlockContent st @ body))))
                \<lparr>codeBlockContent := [], inCodeBlock := False\<rparr>)"
    if h: "\<not> inCodeBlock st" "startsWith (trim opening) fence" "startsWith (trim closing) fence"
      "\<forall>l\<in>set body. \<not> startsWith (trim l) fence"
  proof -
    let ?s1 = "st\<lparr>inCodeBlock := True\<rparr>"
    let ?s2 = "?s1\<lparr>codeBlockContent := codeBlockContent ?s1 @ body\<rparr>"
    from h have a: "scanLine st i opening = Some ?s1" by (simp add: scanLine_def)
    from h have b: "scanLines (Suc i) body ?s1 = Some ?s2"
      by (intro in_fence_body) simp_all
    from h have c: "scanLine ?s2 (Suc i + length body) closing =
        Some ((push ?s2 (CodeBlock (Suc i + length body) (join_nl (codeBlockContent ?s2))))
                \<lparr>codeBlockContent := [], inCodeBlock := False\<rparr>)"
      by (simp add: scanLine_def)
    from a b c show ?thesis
      by (simp add: scanLines_append push_def)
  qed
  have 4: "formatText (JString (fence @ [0x0A] @ ustr ''**not bold**'' @ [0x0A] @ fence)) =
     Some [CodeBlock 2 (ustr ''**not bold**'')]"
    by code_simp
  from 1 2 3 4 show ?thesis by blast
qed

theorem fence_isolation_witness:
  "inCodeBlock (initial\<lparr>inCodeBlock := True\<rparr>) \<and>
   \<not> startsWith (trim (ustr ''# **x**'')) fence \<and>
   scanLine (initial\<lparr>inCodeBlock := True\<rparr>) 1 (ustr ''# **x**'') =
     Some (initial\<lparr>inCodeBlock := True, codeBlockContent := [ustr ''# **x**'']\<rparr>) \<and>
   startsWith (trim (ustr '' ```'')) fence \<and>
   scanLine (initial\<lparr>inCodeBlock := True\<rparr>) 1 (ustr '' ```'') =
     Some (initial\<lparr>formattedLines := [CodeBlock 1 []]\<rparr>) \<and>
   \<not> inCodeBlock initial \<and> startsWith (trim (ustr ''```js'')) fence \<and>
   \<not> startsWith (trim (ustr ''- *a*'')) fence \<and>
   scanLines 0 (ustr ''```js'' # [ustr ''# **x**'', ustr ''- *a*''] @ [ustr '' ```'']) initial =
     Some (initial\<lparr>formattedLines := [CodeBlock 3 (ustr ''# **x**'' @ [0x0A] @ ustr ''- *a*'')]\<rparr>)"
proof -
  let ?st = "initial\<lparr>inCodeBlock := True\<rparr>"
  have a: "inCodeBlock ?st" "\<not> inCodeBlock initial" by (simp_all add: initial_def)
  have b: "\<not> startsWith (trim (ustr ''# **x**'')) fence" "startsWith (trim (ustr '' ```'')) fence"
    "startsWith (trim (ustr ''```js'')) fence" "\<not> startsWith (trim (ustr ''- *a*'')) fence"
    by code_simp+
  then have c: "\<forall>l\<in>set [ustr ''# **x**'', ustr ''- *a*'']. \<not> startsWith (trim l) fence"
    by simp
  note t = fence_isolation[of ?st "ustr ''# **x**''" 1 "ustr ''```js''" "ustr '' ```''"
      "[ustr ''# **x**'', ustr ''- *a*'']"]
  note u = fence_isolation[of ?st "ustr '' ```''" 1 "ustr ''```js''" "ustr '' ```''"
      "[ustr ''# **x**'', ustr ''- *a*'']"]
  note v = fence_isolation[of initial "ustr '' ```''" 0 "ustr ''```js''" "ustr '' ```''"
      "[ustr ''# **x**'', ustr ''- *a*'']"]
  from t a b have 1: "scanLine ?st 1 (ustr ''# **x**'') =
     Some (?st\<lparr>codeBlockContent := codeBlockContent ?st @ [ustr ''# **x**'']\<rparr>)"
    by blast
  from u a b have 2: "scanLine ?st 1 (ustr '' ```'') =
     Some ((push ?st (CodeBlock 1 (join_nl (codeBlockContent ?st))))
                \<lparr>codeBlockContent := [], inCodeBlock := False\<rparr>)"
    by blast
  from v a b c have 3: "scanLines 0 (ustr ''```js'' # [ustr ''# **x**'', ustr ''- *a*''] @ [ustr '' ```'']) initial =
        Some ((push initial (CodeBlock (Suc (0 + length [ustr ''# **x**'', ustr ''- *a*'']))
           (join_nl (codeBlockContent initial @ [ustr ''# **x**'', ustr ''- *a*'']))))
                \<lparr>codeBlockContent := [], inCodeBlock := False\<rparr>)"
    by blast
  from a b 1 2 3 show ?thesis
    by (simp add: initial_def push_def)
qed

text \<open>
  C6 (unterminated fence). When the lines after an opening fence hold no further fence
  marker, the scan of the fence and of these lines pushes no node: it only enters the fence
  and accumulates the lines. So for a text that ends inside an open fence \<open>formatText\<close>
  returns exactly the nodes of the lines before the opening fence, and nothing for the
  fence line or for the lines after it.
\<close>

theorem unterminated_fence_dropped:
  "(\<not> inCodeBlock st \<and> startsWith (trim opening) fence \<and>
    (\<forall>l\<in>set body. \<not> startsWith (trim l) fence) \<longrightarrow>
      scanLines i (opening # body) st =
        Some (st\<lparr>inCodeBlock := True, codeBlockContent := codeBlockContent st @ body\<rparr>)) \<and>
   (text \<noteq> [] \<and> split_nl text = pre @ opening # body \<and> scanLines 0 pre initial = Some st \<and>
    \<not> inCodeBlock st \<and> startsWith (trim opening) fence \<and>
    (\<forall>l\<in>set body. \<not> startsWith (trim l) fence) \<longrightarrow>
      formatText (JString text) = Some (formattedLines st))"
proof -
  have 1: "scanLines i (opening # body) st =
        Some (st\<lparr>inCodeBlock := True, codeBlockContent := codeBlockContent st @ body\<rparr>)"
    if h: "\<not> inCodeBlock st" "startsWith (trim opening) fence"
      "\<forall>l\<in>set body. \<not> startsWith (trim l) fence" for i st
  proof -
    let ?s1 = "st\<lparr>inCodeBlock := True\<rparr>"
    from h have a: "scanLine st i opening = Some ?s1" by (simp add: scanLine_def)
    from h have b: "scanLines (Suc i) body ?s1 =
        Some (?s1\<lparr>codeBlockContent := codeBlockContent ?s1 @ body\<rparr>)"
      by (intro in_fence_body) simp_all
    from a b show ?thesis by simp
  qed
  have 2: "formatText (JString text) = Some (formattedLines st)"
    if h: "text \<noteq> []" "split_nl text = pre @ opening # body" "scanLines 0 pre initial = Some st"
      "\<not> inCodeBlock st" "startsWith (trim opening) fence"
      "\<forall>l\<in>set body. \<not> startsWith (trim l) fence"
    using h 1[OF h(4,5,6), of "length pre"]
    by (simp add: scanLines_append)
  from 1 2 show ?thesis by blast
qed

theorem unterminated_fence_dropped_witness:
  "ustr ''intro'' @ [0x0A] @ fence @ [0x0A] @ ustr ''code'' @ [0x0A] @ ustr ''# more'' \<noteq> [] \<and>
   split_nl (ustr ''intro'' @ [0x0A] @ fence @ [0x0A] @ ustr ''code'' @ [0x0A] @ ustr ''# more'') =
     [ustr ''intro''] @ fence # [ustr ''code'', ustr ''# more''] \<and>
   scanLines 0 [ustr ''intro''] initial =
     Some (initial\<lparr>formattedLines := [Paragraph 0 [PlainText (ustr ''intro'')]]\<rparr>) \<and>
   startsWith (trim fence) fence \<and>
   \<not> startsWith (trim (ustr ''code'')) fence \<and> \<not> startsWith (trim (ustr ''# more'')) fence \<and>
   scanLines 1 (fence # [ustr ''code'', ustr ''# more''])
       (initial\<lparr>formattedLines := [Paragraph 0 [PlainText (ustr ''intro'')]]\<rparr>) =
     Some (initial\<lparr>formattedLines := [Paragraph 0 [PlainText (ustr ''intro'')]],
             inCodeBlock := True, codeBlockContent := [ustr ''code'', ustr ''# more'']\<rparr>) \<and>
   formatText (JString (ustr ''intro'' @ [0x0A] @ fence @ [0x0A] @ ustr ''code'' @ [0x0A] @ ustr ''# more''))
     = Some [Paragraph 0 [PlainText (ustr ''intro'')]]"
proof -
  let ?text = "ustr ''intro'' @ [0x0A] @ fence @ [0x0A] @ ustr ''code'' @ [0x0A] @ ustr ''# more''"
  let ?st = "initial\<lparr>formattedLines := [Paragraph 0 [PlainText (ustr ''intro'')]]\<rparr>"
  have a: "?text \<noteq> []" by (simp add: ustr_def)
  have b: "split_nl ?text = [ustr ''intro''] @ fence # [ustr ''code'', ustr ''# more'']"
    by code_simp
  have c: "scanLines 0 [ustr ''intro''] initial = Some ?st"
    by code_simp
  have d: "\<not> inCodeBlock ?st" by (simp add: initial_def)
  have e: "startsWith (trim fence) fence" "\<not> startsWith (trim (ustr ''code'')) fence"
    "\<not> startsWith (trim (ustr ''# more'')) fence"
    by code_simp+
  then have f: "\<forall>l\<in>set [ustr ''code'', ustr ''# more'']. \<not> startsWith (trim l) fence"
    by simp
  note t = unterminated_fence_dropped[of ?st fence "[ustr ''code'', ustr ''# more'']" 1 ?text
      "[ustr ''intro'']"]
  from t d e(1) f have 1: "scanLines 1 (fence # [ustr ''code'', ustr ''# more'']) ?st =
     Some (?st\<lparr>inCodeBlock := True,
             codeBlockContent := codeBlockContent ?st @ [ustr ''code'', ustr ''# more'']\<rparr>)"
    by blast
  from t a b c d e(1) f have 2: "formatText (JString ?text) = Some (formattedLines ?st)"
    by blast
  from a b c e 1 2 show ?thesis
    by (simp add: initial_def)
qed

text \<open>
  C7 as stated fails: the line \<^verbatim>\<open># Title\<close> followed by a carriage return (what
  \<^verbatim>\<open>split('\n')\<close> leaves of a line that ended in CR LF) is one \<^verbatim>\<open>#\<close>, a space and the
  non-empty content \<^verbatim>\<open>Title\<close> with the carriage return, but the \<^verbatim>\<open>.\<close> of the header
  pattern does not match a line terminator and \<^verbatim>\<open>$\<close> matches only at the end of the
  line: the line is a paragraph.
\<close>

theorem header_line_terminator_counterexample:
  "ustr ''# Title'' @ [0x0D] = replicate 1 (chr CHR ''#'') @ ustr '' '' @ (ustr ''Title'' @ [0x0D]) \<and>
   scanLine initial 0 (ustr ''# Title'' @ [0x0D]) =
     Some (push initial (Paragraph 0 [PlainText (ustr ''# Title'' @ [0x0D])])) \<and>
   formatText (JString (ustr ''# Title'' @ [0x0D, 0x0A] @ ustr ''body'')) =
     Some [Paragraph 0 [PlainText (ustr ''# Title'' @ [0x0D])],
           Paragraph 1 [PlainText (ustr ''body'')]]"
  by code_simp

text \<open>
  C7, amended. Outside a fence, a line of \<open>n\<close> characters \<^verbatim>\<open>#\<close> (\<open>1 \<le> n \<le> 6\<close>), then
  at least one whitespace character, then a non-empty content without line terminator
  (LF, CR, U+2028, U+2029) is pushed as a header of level exactly \<open>n\<close>; a line that
  begins with seven or more \<^verbatim>\<open>#\<close> is not a header and is pushed as a paragraph
  of the whole line.
\<close>

theorem header_level_boundary:
  "(1 \<le> n \<and> n \<le> 6 \<and> ws \<noteq> [] \<and> (\<forall>c\<in>set ws. is_ws c) \<and> content \<noteq> [] \<and>
    (\<forall>c\<in>set content. \<not> is_line_terminator c) \<and> \<not> inCodeBlock st \<longrightarrow>
      (\<exists>sp. scanLine st i (replicate n (chr CHR ''#'') @ ws @ content) =
              Some (push st (Header i n sp)))) \<and>
   (\<not> inCodeBlock st \<longrightarrow>
      (\<exists>sp. formatInlineText (replicate 7 (chr CHR ''#'') @ rest) = Some sp \<and>
            scanLine st i (replicate 7 (chr CHR ''#'') @ rest) = Some (push st (Paragraph i sp))))"
proof -
  have 1: "\<exists>sp. scanLine st i (replicate n (chr CHR ''#'') @ ws @ content) =
              Some (push st (Header i n sp))"
    if h: "1 \<le> n" "n \<le> 6" "ws \<noteq> []" "\<forall>c\<in>set ws. is_ws c" "content \<noteq> []"
      "\<forall>c\<in>set content. \<not> is_line_terminator c" "\<not> inCodeBlock st"
  proof -
    let ?line = "replicate n (chr CHR ''#'') @ ws @ content"
    from header_match[OF h(1-6)] obtain m t where
      m: "match_str ?line headerRegex = Some m" "captures m = [replicate n (chr CHR ''#''), t]"
      by blast
    from h(1) obtain k where k: "n = Suc k" by (cases n) simp_all
    obtain u where u: "trim ?line = chr CHR ''#'' # u"
      using trim_Cons[OF hash_not_ws, of "replicate k (chr CHR ''#'') @ ws @ content"]
      by (auto simp: k)
    have f: "\<not> startsWith (trim ?line) fence"
      unfolding u by (simp add: startsWith_def fence_def)
    obtain sp where sp: "formatInlineText (capture m 2) = Some sp"
      using formatInlineText_total by blast
    from m(2) have c: "length (capture m 1) = n" by (simp add: capture_def)
    from h(7) f u m(1) sp c have "scanLine st i ?line = Some (push st (Header i n sp))"
      by (simp add: scanLine_def)
    then show ?thesis by blast
  qed
  have 2: "\<exists>sp. formatInlineText (replicate 7 (chr CHR ''#'') @ rest) = Some sp \<and>
            scanLine st i (replicate 7 (chr CHR ''#'') @ rest) = Some (push st (Paragraph i sp))"
    if h: "\<not> inCodeBlock st"
  proof -
    have e: "replicate 7 (chr CHR ''#'') @ rest = [] @ chr CHR ''#'' # (replicate 6 (chr CHR ''#'') @ rest)"
      by (simp add: numeral_eq_Suc)
    have n: "match_str ([] @ chr CHR ''#'' # (replicate 6 (chr CHR ''#'') @ rest)) headerRegex = None"
      unfolding e[symmetric] by (rule header_seven)
    from hash_line_paragraph[OF _ h n, of i] show ?thesis
      unfolding e[symmetric] by simp
  qed
  from 1 2 show ?thesis by blast
qed

theorem header_level_boundary_witness:
  "(1::nat) \<le> 3 \<and> (3::nat) \<le> 6 \<and> ustr '' '' \<noteq> [] \<and> is_ws (chr CHR '' '') \<and> ustr ''Hi'' \<noteq> [] \<and>
   \<not> is_line_terminator (chr CHR ''H'') \<and> \<not> is_line_terminator (chr CHR ''i'') \<and>
   \<not> inCodeBlock initial \<and>
   scanLine initial 4 (replicate 3 (chr CHR ''#'') @ ustr '' '' @ ustr ''Hi'') =
     Some (push initial (Header 4 3 [PlainText (ustr ''Hi'')])) \<and>
   scanLine initial 4 (replicate 7 (chr CHR ''#'') @ ustr '' Hi'') =
     Some (push initial (Paragraph 4 [PlainText (ustr ''####### Hi'')]))"
proof -
  have a: "(1::nat) \<le> 3" "(3::nat) \<le> 6" "ustr '' '' \<noteq> []" "ustr ''Hi'' \<noteq> []"
    "\<not> inCodeBlock initial"
    by (simp_all add: ustr_def initial_def)
  have b: "is_ws (chr CHR '' '')" "\<not> is_line_terminator (chr CHR ''H'')"
    "\<not> is_line_terminator (chr CHR ''i'')"
    by (simp_all add: is_ws_def is_line_terminator_def)
  then have c: "\<forall>c\<in>set (ustr '' ''). is_ws c" "\<forall>c\<in>set (ustr ''Hi''). \<not> is_line_terminator c"
    by (simp_all add: ustr_def)
  note t = header_level_boundary[of 3 "ustr '' ''" "ustr ''Hi''" initial 4 "ustr '' Hi''"]
  from t a c obtain sp where
    sp: "scanLine initial 4 (replicate 3 (chr CHR ''#'') @ ustr '' '' @ ustr ''Hi'') =
         Some (push initial (Header 4 3 sp))"
    by blast
  have "scanLine initial 4 (replicate 3 (chr CHR ''#'') @ ustr '' '' @ ustr ''Hi'') =
     Some (push initial (Header 4 3 [PlainText (ustr ''Hi'')]))"
    by code_simp
  moreover from t a obtain sp' where
    "formatInlineText (replicate 7 (chr CHR ''#'') @ ustr '' Hi'') = Some sp'"
    "scanLine initial 4 (replicate 7 (chr CHR ''#'') @ ustr '' Hi'') = Some (push initial (Paragraph 4 sp'))"
    by blast
  moreover have "formatInlineText (replicate 7 (chr CHR ''#'') @ ustr '' Hi'') =
      Some [PlainText (ustr ''####### Hi'')]"
    by code_simp
  ultimately show ?thesis using a b by simp
qed

text \<open>
  C10 (leading whitespace). Let \<open>ws\<close> be any whitespace. A line that is pushed as a
  numbered item, as a bullet item or as a blockquote is pushed as the same node when \<open>ws\<close>
  is put before it, and a fence marker is still a fence marker, with the same effect, when
  indented: the list patterns allow leading whitespace, and the blockquote and the fence
  tests look at the trimmed line. A line that is pushed as a header is, with a non-empty
  \<open>ws\<close> before its \<^verbatim>\<open>#\<close>, no header: it is pushed as a paragraph of the whole
  indented line.
\<close>

theorem leading_whitespace:
  "(\<forall>c\<in>set ws. is_ws c) \<longrightarrow>
     (scanLine st i line = Some (push st (OrderedItem i d sp)) \<longrightarrow>
        scanLine st i (ws @ line) = Some (push st (OrderedItem i d sp))) \<and>
     (scanLine st i line = Some (push st (UnorderedItem i sp)) \<longrightarrow>
        scanLine st i (ws @ line) = Some (push st (UnorderedItem i sp))) \<and>
     (scanLine st i line = Some (push st (Blockquote i sp)) \<longrightarrow>
        scanLine st i (ws @ line) = Some (push st (Blockquote i sp))) \<and>
     (startsWith (trim line) fence \<longrightarrow>
        startsWith (trim (ws @ line)) fence \<and> scanLine st i (ws @ line) = scanLine st i line) \<and>
     (scanLine st i line = Some (push st (Header i n sp)) \<and> ws \<noteq> [] \<longrightarrow>
        (\<exists>sp'. formatInlineText (ws @ line) = Some sp' \<and>
               scanLine st i (ws @ line) = Some (push st (Paragraph i sp'))))"
proof (intro impI conjI)
  assume ws: "\<forall>c\<in>set ws. is_ws c"
  {
    assume "scanLine st i line = Some (push st (OrderedItem i d sp))"
    then show "scanLine st i (ws @ line) = Some (push st (OrderedItem i d sp))"
      by (rule ws_Ordered[OF ws])
  next
    assume "scanLine st i line = Some (push st (UnorderedItem i sp))"
    then show "scanLine st i (ws @ line) = Some (push st (UnorderedItem i sp))"
      by (rule ws_Unordered[OF ws])
  next
    assume "scanLine st i line = Some (push st (Blockquote i sp))"
    then show "scanLine st i (ws @ line) = Some (push st (Blockquote i sp))"
      by (rule ws_Blockquote[OF ws])
  next
    assume f: "startsWith (trim line) fence"
    from ws_fence[OF ws f] show "startsWith (trim (ws @ line)) fence" by blast
    from ws_fence[OF ws f] show "scanLine st i (ws @ line) = scanLine st i line" by blast
  next
    assume "scanLine st i line = Some (push st (Header i n sp)) \<and> ws \<noteq> []"
    then show "\<exists>sp'. formatInlineText (ws @ line) = Some sp' \<and>
               scanLine st i (ws @ line) = Some (push st (Paragraph i sp'))"
      using ws_Header[OF ws] by blast
  }
qed

theorem leading_whitespace_witness:
  "is_ws (chr CHR '' '') \<and> is_ws 0x09 \<and>
   scanLine initial 0 (ustr ''12. go'') =
     Some (push initial (OrderedItem 0 (ustr ''12'') [PlainText (ustr ''go'')])) \<and>
   scanLine initial 0 ([chr CHR '' '', 0x09] @ ustr ''12. go'') =
     Some (push initial (OrderedItem 0 (ustr ''12'') [PlainText (ustr ''go'')])) \<and>
   scanLine initial 0 (ustr ''- go'') = Some (push initial (UnorderedItem 0 [PlainText (ustr ''go'')])) \<and>
   scanLine initial 0 ([chr CHR '' '', 0x09] @ ustr ''- go'') =
     Some (push initial (UnorderedItem 0 [PlainText (ustr ''go'')])) \<and>
   scanLine initial 0 (ustr ''> go'') = Some (push initial (Blockquote 0 [PlainText (ustr ''go'')])) \<and>
   scanLine initial 0 ([chr CHR '' '', 0x09] @ ustr ''> go'') =
     Some (push initial (Blockquote 0 [PlainText (ustr ''go'')])) \<and>
   startsWith (trim fence) fence \<and> startsWith (trim ([chr CHR '' '', 0x09] @ fence)) fence \<and>
   scanLine initial 0 ([chr CHR '' '', 0x09] @ fence) = scanLine initial 0 fence \<and>
   scanLine initial 0 (ustr ''# go'') = Some (push initial (Header 0 1 [PlainText (ustr ''go'')])) \<and>
   [chr CHR '' '', 0x09] \<noteq> [] \<and>
   scanLine initial 0 ([chr CHR '' '', 0x09] @ ustr ''# go'') =
     Some (push initial (Paragraph 0 [PlainText ([chr CHR '' '', 0x09] @ ustr ''# go'')]))"
proof -
  let ?ws = "[chr CHR '' '', 0x09] :: ustring"
  have w: "is_ws (chr CHR '' '')" "is_ws 0x09"
    by (simp_all add: is_ws_def)
  then have ws: "\<forall>c\<in>set ?ws. is_ws c" by simp
  have o: "scanLine initial 0 (ustr ''12. go'') =
     Some (push initial (OrderedItem 0 (ustr ''12'') [PlainText (ustr ''go'')]))"
    by code_simp
  have u: "scanLine initial 0 (ustr ''- go'') =
     Some (push initial (UnorderedItem 0 [PlainText (ustr ''go'')]))"
    by code_simp
  have q: "scanLine initial 0 (ustr ''> go'') =
     Some (push initial (Blockquote 0 [PlainText (ustr ''go'')]))"
    by code_simp
  have f: "startsWith (trim fence) fence"
    by code_simp
  have h: "scanLine initial 0 (ustr ''# go'') =
     Some (push initial (Header 0 1 [PlainText (ustr ''go'')]))"
    by code_simp
  have p: "formatInlineText (?ws @ ustr ''# go'') = Some [PlainText (?ws @ ustr ''# go'')]"
    by code_simp
  from leading_whitespace[of ?ws initial 0 "ustr ''12. go''" "ustr ''12''" "[PlainText (ustr ''go'')]" 1] ws o
  have 1: "scanLine initial 0 (?ws @ ustr ''12. go'') =
     Some (push initial (OrderedItem 0 (ustr ''12'') [PlainText (ustr ''go'')]))"
    by blast
  from leading_whitespace[of ?ws initial 0 "ustr ''- go''" "ustr ''12''" "[PlainText (ustr ''go'')]" 1] ws u
  have 2: "scanLine initial 0 (?ws @ ustr ''- go'') =
     Some (push initial (UnorderedItem 0 [PlainText (ustr ''go'')]))"
    by blast
  from leading_whitespace[of ?ws initial 0 "ustr ''> go''" "ustr ''12''" "[PlainText (ustr ''go'')]" 1] ws q
  have 3: "scanLine initial 0 (?ws @ ustr ''> go'') =
     Some (push initial (Blockquote 0 [PlainText (ustr ''go'')]))"
    by blast
  from leading_whitespace[of ?ws initial 0 fence "ustr ''12''" "[PlainText (ustr ''go'')]" 1] ws f
  have 4: "startsWith (trim (?ws @ fence)) fence" "scanLine initial 0 (?ws @ fence) = scanLine initial 0 fence"
    by blast+
  from leading_whitespace[of ?ws initial 0 "ustr ''# go''" "ustr ''12''" "[PlainText (ustr ''go'')]" 1] ws h
  obtain sp' where "formatInlineText (?ws @ ustr ''# go'') = Some sp'"
    "scanLine initial 0 (?ws @ ustr ''# go'') = Some (push initial (Paragraph 0 sp'))"
    by blast
  with p have 5: "scanLine initial 0 (?ws @ ustr ''# go'') =
     Some (push initial (Paragraph 0 [PlainText (?ws @ ustr ''# go'')]))"
    by simp
  from w o u q f h 1 2 3 4 5 show ?thesis by simp
qed

section \<open>The claims about the whole formatter\<close>

text \<open>
  C8 (empty input). \<open>formatText\<close> of the empty string, of \<^verbatim>\<open>null\<close> and of
  \<^verbatim>\<open>undefined\<close> returns the empty sequence of nodes.
\<close>

theorem formatText_empty:
  "formatText (JString []) = Some [] \<and> formatText JNull = Some [] \<and>
   formatText JUndefined = Some []"
  by simp

text \<open>
  C9 (termination). A match of any of the five inline patterns is not empty and lies
  inside the text, so each \<^verbatim>\<open>exec\<close> of the collection loop leaves \<^verbatim>\<open>lastIndex\<close>
  strictly beyond where the search began; hence the collection loop of every pattern
  returns from every \<^verbatim>\<open>lastIndex\<close>, \<open>formatInlineText\<close> returns on every text, and
  \<open>formatText\<close>, one pass over the lines, returns on every argument.
\<close>

theorem formatter_terminates:
  "(\<forall>p\<in>set patterns. \<forall>i mt. exec (regex_of p) text i = Some mt \<longrightarrow>
      0 < length (matched mt) \<and> i < index mt + length (matched mt) \<and>
      index mt + length (matched mt) \<le> length text) \<and>
   (\<forall>p i acc. \<exists>ms. execLoop p text i acc = Some ms) \<and>
   (\<exists>sp. formatInlineText text = Some sp) \<and>
   (\<exists>bs. formatText a = Some bs)"
proof -
  have "0 < length (matched mt) \<and> i < index mt + length (matched mt) \<and>
      index mt + length (matched mt) \<le> length text"
    if "exec (regex_of p) text i = Some mt" for p i mt
    using exec_pattern[OF that] by (simp del: length_greater_0_conv)
  moreover have "\<exists>ms. execLoop p text i acc = Some ms" for p i acc
    using execLoop_total[of p "text" i acc] by blast
  ultimately show ?thesis
    using formatInlineText_total formatText_total by blast
qed

theorem formatter_terminates_witness:
  "ItalicP \<in> set patterns \<and>
   exec (regex_of ItalicP) (ustr ''a *b* c'') 1 =
     Some \<lparr>index = 2, matched = ustr ''*b*'', captures = [ustr ''b'']\<rparr> \<and>
   0 < length (ustr ''*b*'') \<and> 1 < 2 + length (ustr ''*b*'') \<and>
   2 + length (ustr ''*b*'') \<le> length (ustr ''a *b* c'')"
proof -
  have e: "exec (regex_of ItalicP) (ustr ''a *b* c'') 1 =
     Some \<lparr>index = 2, matched = ustr ''*b*'', captures = [ustr ''b'']\<rparr>"
    by code_simp
  have p: "ItalicP \<in> set patterns" by (simp add: patterns_def)
  from formatter_terminates[of "ustr ''a *b* c''" JNull] p e
  have "0 < length (matched \<lparr>index = 2, matched = ustr ''*b*'', captures = [ustr ''b'']\<rparr>) \<and>
    1 < index \<lparr>index = 2, matched = ustr ''*b*'', captures = [ustr ''b'']\<rparr> +
        length (matched \<lparr>index = 2, matched = ustr ''*b*'', captures = [ustr ''b'']\<rparr>) \<and>
    index \<lparr>index = 2, matched = ustr ''*b*'', captures = [ustr ''b'']\<rparr> +
        length (matched \<lparr>index = 2, matched = ustr ''*b*'', captures = [ustr ''b'']\<rparr>)
      \<le> length (ustr ''a *b* c'')"
    by blast
  with p e show ?thesis by simp
qed

end
